theory Spec2Isabelle
  imports Main "HOL-Library.Sublist"
begin

section \<open>The external-call detection module of mythril (external_calls.py)\<close>

text \<open>
  The module walks the list of message calls recorded by the symbolic execution engine,
  filters them by the shape of their gas and destination, classifies the destination,
  and searches the control-flow graph below the call for storage writes of the same
  transaction. The embedding follows \<^verbatim>\<open>ExternalCallModule.search_children\<close> and
  \<^verbatim>\<open>ExternalCallModule.execute\<close> statement by statement. Python's exceptions are values of
  a sum type, the instance attribute \<^verbatim>\<open>calls_visited\<close> is passed in and returned, and the
  records written by \<^verbatim>\<open>logging.debug\<close> are returned as a list.
\<close>

subsection \<open>Data model\<close>

text \<open>
  Modelled from the spec: the class \<^verbatim>\<open>Variable\<close> and the enum \<^verbatim>\<open>VarType\<close> come from
  \<^verbatim>\<open>mythril.analysis.ops\<close>, which is not among the sources. The spec gives
  \<^verbatim>\<open>Value = Concrete(number) | Symbolic(text)\<close>; a symbolic value is kept as the text that
  \<^verbatim>\<open>str\<close> renders.
\<close>

datatype VarType = SYMBOLIC | CONCRETE

datatype Variable = Concrete (val: int) | Symbolic (expr: string)

fun var_type :: "Variable \<Rightarrow> VarType" where
  "var_type (Concrete v) = CONCRETE"
| "var_type (Symbolic t) = SYMBOLIC"

text \<open>
  Modelled from the spec: the enum \<^verbatim>\<open>JumpType\<close> comes from \<^verbatim>\<open>mythril.laser.ethereum.cfg\<close>,
  which is not among the sources. The spec gives two kinds of edge, ordinary control flow
  and the transaction boundary; the code only compares with \<^verbatim>\<open>JumpType.Transaction\<close>.
\<close>

datatype JumpType = IntraFlow | Transaction

text \<open>
  Modelled from the spec: the constant \<^verbatim>\<open>REENTRANCY\<close> comes from
  \<^verbatim>\<open>mythril.analysis.swc_data\<close>, which is not among the sources; the spec calls it the
  fixed reentrancy classifier id.
\<close>

definition REENTRANCY :: string where
  "REENTRANCY = ''reentrancy''"

text \<open>
  An execution state, with the attributes the module reads:
  \<^verbatim>\<open>get_current_instruction()["opcode"]\<close>, \<^verbatim>\<open>get_current_instruction()["address"]\<close>,
  \<^verbatim>\<open>current_transaction.id\<close>, \<^verbatim>\<open>environment.active_account.address\<close>,
  \<^verbatim>\<open>environment.code.bytecode\<close>, \<^verbatim>\<open>mstate.min_gas_used\<close> and \<^verbatim>\<open>mstate.max_gas_used\<close>.
  Transaction ids, account addresses and bytecode are only compared or copied.
\<close>

record GlobalState =
  instruction_opcode :: string
  instruction_address :: int
  current_transaction_id :: int
  active_account_address :: string
  bytecode :: string
  min_gas_used :: int
  max_gas_used :: int

record Node =
  uid :: int
  states :: "GlobalState list"
  contract_name :: string
  function_name :: string

record Edge =
  node_from :: int
  node_to :: int
  edge_type :: JumpType

text \<open>
  A call occurrence. \<^verbatim>\<open>state_index\<close> is the position of the call's state in its node; it
  is a list index produced by the engine and is a natural number here.
\<close>

record Call =
  call_type :: string
  call_to :: Variable
  call_value :: Variable
  call_gas :: Variable
  call_state :: GlobalState
  call_node :: Node
  state_index :: nat

text \<open>
  The statespace: \<^verbatim>\<open>nodes\<close> is a dictionary from node ids to nodes, \<^verbatim>\<open>edges\<close> and
  \<^verbatim>\<open>calls\<close> are lists. The method \<^verbatim>\<open>find_storage_write\<close> belongs to
  \<^verbatim>\<open>mythril.analysis.symbolic\<close>, which is not among the sources; it is a field of the
  record, a function from the account address and the slot key to the name of a writing
  function or \<^verbatim>\<open>None\<close>.
\<close>

record StateSpace =
  nodes :: "int \<rightharpoonup> Node"
  edges :: "Edge list"
  calls :: "Call list"
  find_storage_write :: "string \<Rightarrow> string \<Rightarrow> string option"

record Issue =
  contract :: string
  issue_function_name :: string
  issue_address :: int
  title :: string
  issue_type :: string
  description :: string
  issue_bytecode :: string
  swc_id :: string
  gas_used :: "int \<times> int"

record ExternalCallModule =
  max_search_depth :: int
  calls_visited :: "int list"

datatype error = KeyError int

text \<open>The records handed to \<^verbatim>\<open>logging.debug\<close>, one constructor for each call site.\<close>

datatype LogRecord =
    SearchingNode int
  | CallTo string string string
  | CheckingStateChanges string
  | DetectedStateChanges "int list"

subsection \<open>Strings\<close>

text \<open>Python's \<^verbatim>\<open>sub in s\<close> on strings: \<^verbatim>\<open>sub\<close> occurs in \<^verbatim>\<open>s\<close> as a contiguous run.\<close>

fun py_in :: "string \<Rightarrow> string \<Rightarrow> bool" where
  "py_in sub [] = (sub = [])"
| "py_in sub (c # cs) = (prefix sub (c # cs) \<or> py_in sub cs)"

text \<open>Python's \<^verbatim>\<open>str\<close> on an integer: decimal digits, with a minus sign when negative.\<close>

definition digit_char :: "nat \<Rightarrow> char" where
  "digit_char d = char_of (48 + d)"

fun str_nat :: "nat \<Rightarrow> string" where
  "str_nat n = (if n < 10 then [digit_char n] else str_nat (n div 10) @ [digit_char (n mod 10)])"

declare str_nat.simps [simp del]

definition str_int :: "int \<Rightarrow> string" where
  "str_int i = (if i < 0 then CHR ''-'' # str_nat (nat (- i)) else str_nat (nat i))"

text \<open>\<^verbatim>\<open>Variable.__str__\<close> returns \<^verbatim>\<open>str(self.val)\<close>.\<close>

fun str_var :: "Variable \<Rightarrow> string" where
  "str_var (Concrete v) = str_int v"
| "str_var (Symbolic t) = t"

text \<open>
  \<^verbatim>\<open>re.search(r"storage_([a-z0-9_&^]+)", s)\<close>, returning group 1 of the leftmost match:
  the first position where \<^verbatim>\<open>storage_\<close> is followed by at least one character of the
  class, and the longest run of class characters from there.
\<close>

definition slot_char :: "char \<Rightarrow> bool" where
  "slot_char c =
     ((of_char (CHR ''a'') \<le> (of_char c :: nat) \<and> (of_char c :: nat) \<le> of_char (CHR ''z''))
      \<or> (of_char (CHR ''0'') \<le> (of_char c :: nat) \<and> (of_char c :: nat) \<le> of_char (CHR ''9''))
      \<or> c = CHR ''_'' \<or> c = CHR ''&'' \<or> c = CHR ''^'')"

fun re_search_storage :: "string \<Rightarrow> string option" where
  "re_search_storage [] = None"
| "re_search_storage (c # cs) =
     (if prefix ''storage_'' (c # cs) \<and> takeWhile slot_char (drop 8 (c # cs)) \<noteq> []
      then Some (takeWhile slot_char (drop 8 (c # cs)))
      else re_search_storage cs)"

subsection \<open>The search below a call: search_children\<close>

text \<open>
  The loop \<^verbatim>\<open>for j in range(start_index, n_states)\<close> under the guard
  \<^verbatim>\<open>n_states > start_index\<close>: the address of every SSTORE state of the given transaction
  is appended to \<^verbatim>\<open>results\<close>.
\<close>

definition scan_states :: "Node \<Rightarrow> int \<Rightarrow> nat \<Rightarrow> int list \<Rightarrow> int list" where
  "scan_states node transaction_id start_index results =
     (let n_states = length (states node) in
      if n_states > start_index then
        foldl (\<lambda>results j.
                 if instruction_opcode (states node ! j) = ''SSTORE''
                    \<and> current_transaction_id (states node ! j) = transaction_id
                 then results @ [instruction_address (states node ! j)]
                 else results)
              results [start_index..<n_states]
      else results)"

text \<open>
  The loop \<^verbatim>\<open>for edge in statespace.edges\<close>: the destination of every edge that leaves the
  node and is not a transaction edge is looked up in \<^verbatim>\<open>statespace.nodes\<close> and appended to
  \<^verbatim>\<open>children\<close>. A missing key raises \<^verbatim>\<open>KeyError\<close>.
\<close>

fun children_loop :: "(int \<rightharpoonup> Node) \<Rightarrow> int \<Rightarrow> Edge list \<Rightarrow> Node list \<Rightarrow> error + Node list" where
  "children_loop nds u [] children = Inr children"
| "children_loop nds u (edge # es) children =
     (if node_from edge = u \<and> edge_type edge \<noteq> Transaction then
        (case nds (node_to edge) of
           None \<Rightarrow> Inl (KeyError (node_to edge))
         | Some n \<Rightarrow> children_loop nds u es (children @ [n]))
      else children_loop nds u es children)"

text \<open>
  \<^verbatim>\<open>search_children\<close> returns the records it logged and either the exception or the
  list \<^verbatim>\<open>results\<close>. The accumulator handed to a child is the list object the child
  returns, so \<^verbatim>\<open>results += self.search_children(..., results=results)\<close> extends the list
  by itself: after a child that returns \<^verbatim>\<open>r\<close> the accumulator is \<^verbatim>\<open>r + r\<close>.
  \<^verbatim>\<open>search_loop\<close> is the loop \<^verbatim>\<open>for node in children\<close>. The argument \<open>msd\<close> is
  \<^verbatim>\<open>self.max_search_depth\<close>. The scan comes before the lookup of the children in the
  source; when the lookup raises, the scanned addresses are lost with the exception.
\<close>

function
  search_children :: "StateSpace \<Rightarrow> int \<Rightarrow> Node \<Rightarrow> int \<Rightarrow> nat \<Rightarrow> int \<Rightarrow> int list
                       \<Rightarrow> LogRecord list \<times> (error + int list)"
and
  search_loop :: "StateSpace \<Rightarrow> int \<Rightarrow> Node list \<Rightarrow> int \<Rightarrow> int \<Rightarrow> int list
                   \<Rightarrow> LogRecord list \<times> (error + int list)"
where
  "search_children statespace msd node transaction_id start_index depth results =
     (if depth < msd then
        (case children_loop (nodes statespace) (uid node) (edges statespace) [] of
           Inl e \<Rightarrow> ([SearchingNode (uid node)], Inl e)
         | Inr children \<Rightarrow>
             (case search_loop statespace msd children transaction_id depth
                     (scan_states node transaction_id start_index results) of
                (lg, r) \<Rightarrow> (SearchingNode (uid node) # lg, r)))
      else ([SearchingNode (uid node)], Inr results))"
| "search_loop statespace msd [] transaction_id depth results = ([], Inr results)"
| "search_loop statespace msd (node # children) transaction_id depth results =
     (case search_children statespace msd node transaction_id 0 (depth + 1) results of
        (lg, Inl e) \<Rightarrow> (lg, Inl e)
      | (lg, Inr r) \<Rightarrow>
          (case search_loop statespace msd children transaction_id depth (r @ r) of
             (lg', r') \<Rightarrow> (lg @ lg', r')))"
  by pat_completeness auto

termination
  by (relation "measures
        [\<lambda>x. case x of
                Inl (statespace, msd, node, transaction_id, start_index, depth, results) \<Rightarrow>
                  nat (msd + 1 - depth)
              | Inr (statespace, msd, children, transaction_id, depth, results) \<Rightarrow>
                  nat (msd - depth),
         \<lambda>x. case x of
                Inl a \<Rightarrow> 0
              | Inr (statespace, msd, children, transaction_id, depth, results) \<Rightarrow>
                  length children + 1]") auto

declare search_children.simps [simp del]

subsection \<open>The detection pass: execute\<close>

text \<open>
  The condition of lines 78 to 85. Python's \<^verbatim>\<open>and\<close> binds tighter than \<^verbatim>\<open>or\<close>: the
  condition is \<^verbatim>\<open>(A and B) or C\<close>.
\<close>

definition call_filter :: "Call \<Rightarrow> bool" where
  "call_filter call =
     (var_type (call_to call) = SYMBOLIC
        \<and> (var_type (call_gas call) = CONCRETE \<and> val (call_gas call) > 2300)
      \<or> (var_type (call_gas call) = SYMBOLIC
            \<and> \<not> py_in ''2300'' (str_var (call_gas call))))"

text \<open>
  Lines 87 to 122: the description of the destination and the flag \<^verbatim>\<open>user_supplied\<close>.
  \<^verbatim>\<open>if func\<close> holds for a name that is neither \<^verbatim>\<open>None\<close> nor the empty string.
\<close>

definition call_description :: "StateSpace \<Rightarrow> Call \<Rightarrow> string \<times> bool" where
  "call_description statespace call =
     (let description = ''This contract executes a message call to '';
          target = str_var (call_to call) in
      if py_in ''calldata'' target \<or> py_in ''caller'' target then
        (if py_in ''calldata'' target
         then (description @ ''an address provided as a function argument. '', True)
         else (description @ ''the address of the transaction sender. '', True))
      else
        (case re_search_storage (str_var (call_to call)) of
           None \<Rightarrow> (description, False)
         | Some idx \<Rightarrow>
             (case find_storage_write statespace
                     (active_account_address (call_state call)) idx of
                None \<Rightarrow> (description, False)
              | Some func \<Rightarrow>
                  if func \<noteq> [] then
                    (description @ ''an address found at storage slot '' @ idx @ ''. ''
                       @ ''This storage slot can be written to by calling the function `''
                       @ func @ ''`. '', True)
                  else (description, False))))"

text \<open>Lines 124 to 163: the issue built for the call itself.\<close>

definition user_supplied_advice :: string where
  "user_supplied_advice =
     ''Generally, it is not recommended to call user-supplied addresses using Solidity's call() construct. ''
     @ ''Note that attackers might leverage reentrancy attacks to exploit race conditions or manipulate this contract's state.''"

definition trusted_advice :: string where
  "trusted_advice =
     ''to another contract. Make sure that the called contract is trusted and does not execute user-supplied code.''"

definition call_issue :: "StateSpace \<Rightarrow> Call \<Rightarrow> Issue" where
  "call_issue statespace call =
     (let state = call_state call;
          address = instruction_address state;
          (description, user_supplied) = call_description statespace call in
      if user_supplied then
        \<lparr> contract = contract_name (call_node call),
          issue_function_name = function_name (call_node call),
          issue_address = address,
          title = ''Message call to external contract'',
          issue_type = ''Warning'',
          description = description @ user_supplied_advice,
          issue_bytecode = bytecode state,
          swc_id = REENTRANCY,
          gas_used = (min_gas_used state, max_gas_used state) \<rparr>
      else
        \<lparr> contract = contract_name (call_node call),
          issue_function_name = function_name (call_node call),
          issue_address = address,
          title = ''Message call to external contract'',
          issue_type = ''Informational'',
          description = description @ trusted_advice,
          issue_bytecode = bytecode state,
          swc_id = REENTRANCY,
          gas_used = (min_gas_used state, max_gas_used state) \<rparr>)"

text \<open>Lines 192 to 213: the issue built for one address returned by the search.\<close>

definition state_change_issue :: "Call \<Rightarrow> int \<Rightarrow> Issue" where
  "state_change_issue call address =
     \<lparr> contract = contract_name (call_node call),
       issue_function_name = function_name (call_node call),
       issue_address = address,
       title = ''State change after external call'',
       issue_type = ''Warning'',
       description =
         ''The contract account state is changed after an external call. ''
         @ ''Consider that the called contract could re-enter the function before this ''
         @ ''state change takes place. This can lead to business logic vulnerabilities.'',
       issue_bytecode = bytecode (call_state call),
       swc_id = REENTRANCY,
       gas_used = (min_gas_used (call_state call), max_gas_used (call_state call)) \<rparr>"

text \<open>The record logged for every call of kind \<^verbatim>\<open>CALL\<close> (lines 73 to 76).\<close>

definition call_log :: "Call \<Rightarrow> LogRecord" where
  "call_log call =
     CallTo (str_var (call_to call)) (str_var (call_value call)) (str_var (call_gas call))"

text \<open>
  The body of \<^verbatim>\<open>for call in statespace.calls\<close>. It takes the detector and the list
  \<^verbatim>\<open>issues\<close> built so far, and returns the detector, the records logged and either the
  exception or the extended list. The address is appended to \<^verbatim>\<open>calls_visited\<close> before the
  search runs, so the detector keeps it when the search raises.
\<close>

definition call_step ::
  "StateSpace \<Rightarrow> Call \<Rightarrow> ExternalCallModule \<Rightarrow> Issue list
     \<Rightarrow> ExternalCallModule \<times> LogRecord list \<times> (error + Issue list)" where
  "call_step statespace call self issues =
     (let state = call_state call;
          address = instruction_address state in
      if call_type call = ''CALL'' then
        (let lg = [call_log call] in
         if call_filter call then
           (let issues = issues @ [call_issue statespace call] in
            if address \<notin> set (calls_visited self) then
              (let self = self\<lparr>calls_visited := calls_visited self @ [address]\<rparr>;
                   lg = lg @ [CheckingStateChanges (function_name (call_node call))] in
               case search_children statespace (max_search_depth self) (call_node call)
                      (current_transaction_id (call_state call)) (state_index call + 1) 0 [] of
                 (slg, Inl e) \<Rightarrow> (self, lg @ slg, Inl e)
               | (slg, Inr state_change_addresses) \<Rightarrow>
                   (self, lg @ slg @ [DetectedStateChanges state_change_addresses],
                    Inr (issues @ map (state_change_issue call) state_change_addresses)))
            else (self, lg, Inr issues))
         else (self, lg, Inr issues))
      else (self, [], Inr issues))"

fun execute_loop ::
  "StateSpace \<Rightarrow> Call list \<Rightarrow> ExternalCallModule \<Rightarrow> Issue list
     \<Rightarrow> ExternalCallModule \<times> LogRecord list \<times> (error + Issue list)" where
  "execute_loop statespace [] self issues = (self, [], Inr issues)"
| "execute_loop statespace (call # rest) self issues =
     (case call_step statespace call self issues of
        (self', lg, Inl e) \<Rightarrow> (self', lg, Inl e)
      | (self', lg, Inr issues') \<Rightarrow>
          (case execute_loop statespace rest self' issues' of
             (self'', lg', r) \<Rightarrow> (self'', lg @ lg', r)))"

definition execute ::
  "ExternalCallModule \<Rightarrow> StateSpace
     \<Rightarrow> ExternalCallModule \<times> LogRecord list \<times> (error + Issue list)" where
  "execute self statespace = execute_loop statespace (calls statespace) self []"

text \<open>\<^verbatim>\<open>detector = ExternalCallModule()\<close>: the instance the framework runs.\<close>

definition detector :: ExternalCallModule where
  "detector = \<lparr> max_search_depth = 64, calls_visited = [] \<rparr>"

subsection \<open>Notions used in the statements\<close>

text \<open>A state is a storage write of a transaction.\<close>

definition is_write :: "int \<Rightarrow> GlobalState \<Rightarrow> bool" where
  "is_write transaction_id s =
     (instruction_opcode s = ''SSTORE'' \<and> current_transaction_id s = transaction_id)"

text \<open>
  One step of the search: an edge that leaves the node, is not a transaction edge, and
  whose destination is a node of the statespace.
\<close>

definition intra_step :: "StateSpace \<Rightarrow> Node \<Rightarrow> Node \<Rightarrow> bool" where
  "intra_step statespace n c =
     (\<exists>edge\<in>set (edges statespace).
        node_from edge = uid n \<and> edge_type edge \<noteq> Transaction
        \<and> nodes statespace (node_to edge) = Some c)"

text \<open>The statespace without its transaction edges.\<close>

definition drop_transaction_edges :: "StateSpace \<Rightarrow> StateSpace" where
  "drop_transaction_edges statespace =
     statespace\<lparr>edges := filter (\<lambda>edge. edge_type edge \<noteq> Transaction) (edges statespace)\<rparr>"

text \<open>
  A bound on the number of invocations of \<^verbatim>\<open>search_children\<close>: with at most \<open>e\<close>
  children at every node and \<open>n\<close> levels left, one invocation and \<open>e\<close> times the bound
  for one level less.
\<close>

fun search_bound :: "nat \<Rightarrow> nat \<Rightarrow> nat" where
  "search_bound e 0 = 1"
| "search_bound e (Suc n) = 1 + e * search_bound e n"

text \<open>The record that \<^verbatim>\<open>execute\<close> logs right before it calls \<^verbatim>\<open>search_children\<close>.\<close>

fun is_checking :: "LogRecord \<Rightarrow> bool" where
  "is_checking (CheckingStateChanges f) = True"
| "is_checking r = False"

subsection \<open>Example statespaces\<close>

text \<open>
  A call at program address \<^verbatim>\<open>0x10\<close> in transaction 1, with destination
  \<^verbatim>\<open>calldata_arg_0\<close> and concrete gas 5000, and a storage write at address \<^verbatim>\<open>0x42\<close> in
  the same transaction.
\<close>

definition call_state_ex :: GlobalState where
  "call_state_ex =
     \<lparr> instruction_opcode = ''CALL'', instruction_address = 0x10,
       current_transaction_id = 1, active_account_address = ''0xaffe'',
       bytecode = ''6080'', min_gas_used = 100, max_gas_used = 200 \<rparr>"

definition sstore_state_ex :: GlobalState where
  "sstore_state_ex =
     \<lparr> instruction_opcode = ''SSTORE'', instruction_address = 0x42,
       current_transaction_id = 1, active_account_address = ''0xaffe'',
       bytecode = ''6080'', min_gas_used = 300, max_gas_used = 400 \<rparr>"

definition node_a :: Node where
  "node_a = \<lparr> uid = 0, states = [call_state_ex], contract_name = ''Wallet'',
              function_name = ''withdraw()'' \<rparr>"

definition node_b :: Node where
  "node_b = \<lparr> uid = 1, states = [], contract_name = ''Wallet'',
              function_name = ''withdraw()'' \<rparr>"

definition node_c :: Node where
  "node_c = \<lparr> uid = 2, states = [sstore_state_ex], contract_name = ''Wallet'',
              function_name = ''withdraw()'' \<rparr>"

definition call_ex :: Call where
  "call_ex =
     \<lparr> call_type = ''CALL'', call_to = Symbolic ''calldata_arg_0'', call_value = Concrete 0,
       call_gas = Concrete 5000, call_state = call_state_ex, call_node = node_a,
       state_index = 0 \<rparr>"

text \<open>
  The chain: the call's node, one intermediate node, and the node with the storage write,
  linked by two ordinary edges. Every node is reached along one path.
\<close>

definition chain_statespace :: StateSpace where
  "chain_statespace =
     \<lparr> nodes = [0 \<mapsto> node_a, 1 \<mapsto> node_b, 2 \<mapsto> node_c],
       edges = [\<lparr> node_from = 0, node_to = 1, edge_type = IntraFlow \<rparr>,
                \<lparr> node_from = 1, node_to = 2, edge_type = IntraFlow \<rparr>],
       calls = [call_ex],
       find_storage_write = (\<lambda>account idx. None) \<rparr>"

text \<open>The call's node linked directly to the node with the storage write.\<close>

definition direct_statespace :: StateSpace where
  "direct_statespace =
     \<lparr> nodes = [0 \<mapsto> node_a, 2 \<mapsto> node_c],
       edges = [\<lparr> node_from = 0, node_to = 2, edge_type = IntraFlow \<rparr>],
       calls = [call_ex],
       find_storage_write = (\<lambda>account idx. None) \<rparr>"

text \<open>
  The chain with one more node, holding a storage write of the same transaction and
  entered from the intermediate node by a transaction edge.
\<close>

definition node_d :: Node where
  "node_d = \<lparr> uid = 3, states = [sstore_state_ex\<lparr>instruction_address := 0x99\<rparr>],
              contract_name = ''Wallet'', function_name = ''deposit()'' \<rparr>"

definition boundary_statespace :: StateSpace where
  "boundary_statespace =
     \<lparr> nodes = [0 \<mapsto> node_a, 1 \<mapsto> node_b, 2 \<mapsto> node_c, 3 \<mapsto> node_d],
       edges = [\<lparr> node_from = 0, node_to = 1, edge_type = IntraFlow \<rparr>,
                \<lparr> node_from = 1, node_to = 3, edge_type = Transaction \<rparr>,
                \<lparr> node_from = 1, node_to = 2, edge_type = IntraFlow \<rparr>],
       calls = [call_ex],
       find_storage_write = (\<lambda>account idx. None) \<rparr>"

text \<open>Calls with other destinations and gas values, at the same state and node.\<close>

definition call_stipend :: Call where
  "call_stipend = call_ex\<lparr>call_gas := Concrete 2300\<rparr>"

definition call_fixed :: Call where
  "call_fixed = call_ex\<lparr>call_to := Concrete 0xdead, call_gas := Symbolic ''gas_limit''\<rparr>"

definition call_slot :: Call where
  "call_slot = call_ex\<lparr>call_to := Symbolic ''storage_3''\<rparr>"

text \<open>A statespace whose slot 3 is written by \<^verbatim>\<open>setOwner\<close>, and one with the call twice.\<close>

definition owner_statespace :: StateSpace where
  "owner_statespace =
     chain_statespace\<lparr>calls := [call_slot],
       find_storage_write := (\<lambda>account idx. if idx = ''3'' then Some ''setOwner'' else None)\<rparr>"

definition twice_statespace :: StateSpace where
  "twice_statespace = chain_statespace\<lparr>calls := [call_ex, call_ex]\<rparr>"

text \<open>
  A node whose states are a storage write before the call, the call, a storage write of
  the call's transaction and one of another transaction; and a child whose states are a
  storage read, a storage write of the call's transaction and one of another transaction.
\<close>

definition node_e :: Node where
  "node_e =
     \<lparr> uid = 4,
       states = [sstore_state_ex\<lparr>instruction_address := 0x05\<rparr>,
                 call_state_ex,
                 sstore_state_ex\<lparr>instruction_address := 0x20\<rparr>,
                 sstore_state_ex\<lparr>instruction_address := 0x21, current_transaction_id := 2\<rparr>],
       contract_name = ''Wallet'', function_name = ''withdraw()'' \<rparr>"

definition node_f :: Node where
  "node_f =
     \<lparr> uid = 5,
       states = [sstore_state_ex\<lparr>instruction_opcode := ''SLOAD'', instruction_address := 0x30\<rparr>,
                 sstore_state_ex,
                 sstore_state_ex\<lparr>instruction_address := 0x43, current_transaction_id := 2\<rparr>],
       contract_name = ''Wallet'', function_name = ''withdraw()'' \<rparr>"

definition busy_statespace :: StateSpace where
  "busy_statespace =
     \<lparr> nodes = [4 \<mapsto> node_e, 5 \<mapsto> node_f],
       edges = [\<lparr> node_from = 4, node_to = 5, edge_type = IntraFlow \<rparr>],
       calls = [call_ex\<lparr>call_node := node_e, state_index := 1\<rparr>],
       find_storage_write = (\<lambda>account idx. None) \<rparr>"

lemmas example_defs =
  call_state_ex_def sstore_state_ex_def node_a_def node_b_def node_c_def call_ex_def
  chain_statespace_def direct_statespace_def node_d_def boundary_statespace_def
  call_stipend_def call_fixed_def call_slot_def owner_statespace_def
  twice_statespace_def node_e_def node_f_def busy_statespace_def

section \<open>Properties\<close>

subsection \<open>The scan and the children of a node\<close>

lemma scan_fold:
  "foldl (\<lambda>results j.
            if instruction_opcode (xs ! j) = ''SSTORE'' \<and> current_transaction_id (xs ! j) = tid
            then results @ [instruction_address (xs ! j)] else results) acc [i..<length xs]
     = acc @ map instruction_address (filter (is_write tid) (drop i xs))"
proof (induction "length xs - i" arbitrary: i acc)
  case 0
  then show ?case by simp
next
  case (Suc k)
  then have i: "i < length xs" by simp
  then have d: "drop i xs = xs ! i # drop (Suc i) xs"
    by (simp add: Cons_nth_drop_Suc)
  from Suc(2) have k: "k = length xs - Suc i" by simp
  show ?case
    using i by (simp add: upt_conv_Cons Suc(1) [OF k] d is_write_def)
qed

lemma scan_states_eq:
  "scan_states node tid si results =
     results @ map instruction_address (filter (is_write tid) (drop si (states node)))"
  by (simp add: scan_states_def scan_fold Let_def)

lemma children_loop_eq:
  "children_loop nds u es acc = Inr cs \<Longrightarrow>
     set cs = set acc \<union> {c. \<exists>e\<in>set es. node_from e = u \<and> edge_type e \<noteq> Transaction
                                 \<and> nds (node_to e) = Some c}"
proof (induction es arbitrary: acc)
  case Nil
  then show ?case by simp
next
  case (Cons e es)
  show ?case
  proof (cases "node_from e = u \<and> edge_type e \<noteq> Transaction")
    case False
    with Cons.prems have "children_loop nds u es acc = Inr cs" by auto
    from Cons.IH [OF this] False show ?thesis by auto
  next
    case True
    with Cons.prems obtain n where n: "nds (node_to e) = Some n"
      and r: "children_loop nds u es (acc @ [n]) = Inr cs"
      by (auto split: option.splits)
    from Cons.IH [OF r] True n show ?thesis by auto
  qed
qed

lemma children_loop_length:
  "children_loop nds u es acc = Inr cs \<Longrightarrow> length cs \<le> length acc + length es"
  by (induction es arbitrary: acc) (fastforce split: if_splits option.splits)+

lemma children_loop_filter:
  "children_loop nds u (filter (\<lambda>edge. edge_type edge \<noteq> Transaction) es) acc
     = children_loop nds u es acc"
  by (induction es arbitrary: acc) (simp_all split: option.splits)

subsection \<open>The accumulator of the search\<close>

text \<open>The list returned holds everything the accumulator held.\<close>

lemma search_mono:
  "search_children ss msd node tid si depth results = (lg, Inr r) \<Longrightarrow> set results \<subseteq> set r"
  "search_loop ss msd cs tid depth results = (lg, Inr r) \<Longrightarrow> set results \<subseteq> set r"
proof (induction ss msd node tid si depth results and ss msd cs tid depth results
       arbitrary: lg r and lg r rule: search_children_search_loop.induct)
  case (1 ss msd node tid si depth results)
  show ?case
  proof (cases "depth < msd")
    case False
    with "1.prems" show ?thesis by (simp add: search_children.simps)
  next
    case True
    with "1.prems" obtain cs lg1 where
      cs: "children_loop (nodes ss) (uid node) (edges ss) [] = Inr cs"
      and sl: "search_loop ss msd cs tid depth (scan_states node tid si results) = (lg1, Inr r)"
      by (auto simp add: search_children.simps split: sum.splits prod.splits)
    from "1.IH" [OF True cs sl] show ?thesis by (simp add: scan_states_eq)
  qed
next
  case (2 ss msd tid depth results)
  then show ?case by simp
next
  case (3 ss msd node cs tid depth results)
  from "3.prems" obtain lg1 rc lg2 where
    sc: "search_children ss msd node tid 0 (depth + 1) results = (lg1, Inr rc)"
    and sl: "search_loop ss msd cs tid depth (rc @ rc) = (lg2, Inr r)"
    by (auto split: sum.splits prod.splits)
  from "3.IH"(1) [OF sc] "3.IH"(2) [OF sc [symmetric] refl sl] show ?case by auto
qed

text \<open>
  Two runs that differ in the accumulator only log the same records, raise the same
  exception, and return the same addresses beyond their accumulators.
\<close>

lemma search_acc:
  "search_children ss msd node tid si depth results = (lg, res) \<Longrightarrow>
   search_children ss msd node tid si depth results' = (lg', res') \<Longrightarrow>
     lg' = lg \<and>
     (case res of
        Inl e \<Rightarrow> res' = Inl e
      | Inr r \<Rightarrow> (\<exists>r'. res' = Inr r' \<and> set r \<union> set results' = set r' \<union> set results))"
  "search_loop ss msd cs tid depth results = (lg, res) \<Longrightarrow>
   search_loop ss msd cs tid depth results' = (lg', res') \<Longrightarrow>
     lg' = lg \<and>
     (case res of
        Inl e \<Rightarrow> res' = Inl e
      | Inr r \<Rightarrow> (\<exists>r'. res' = Inr r' \<and> set r \<union> set results' = set r' \<union> set results))"
proof (induction ss msd node tid si depth results and ss msd cs tid depth results
       arbitrary: lg res lg' res' results' and lg res lg' res' results'
       rule: search_children_search_loop.induct)
  case (1 ss msd node tid si depth results)
  show ?case
  proof (cases "depth < msd")
    case False
    with "1.prems" show ?thesis by (auto simp add: search_children.simps)
  next
    case True
    show ?thesis
    proof (cases "children_loop (nodes ss) (uid node) (edges ss) []")
      case (Inl e)
      with True "1.prems" show ?thesis by (auto simp add: search_children.simps)
    next
      case (Inr cs)
      obtain lg1 res1 where
        sl: "search_loop ss msd cs tid depth (scan_states node tid si results) = (lg1, res1)"
        by (cases "search_loop ss msd cs tid depth (scan_states node tid si results)")
      obtain lg2 res2 where
        sl': "search_loop ss msd cs tid depth (scan_states node tid si results') = (lg2, res2)"
        by (cases "search_loop ss msd cs tid depth (scan_states node tid si results')")
      from True Inr sl "1.prems"(1) have a: "lg = SearchingNode (uid node) # lg1" "res = res1"
        by (simp_all add: search_children.simps)
      from True Inr sl' "1.prems"(2) have b: "lg' = SearchingNode (uid node) # lg2" "res' = res2"
        by (simp_all add: search_children.simps)
      note ih = "1.IH" [OF True Inr sl sl']
      show ?thesis
      proof (cases res1)
        case (Inl e)
        with ih a b show ?thesis by simp
      next
        case r: (Inr r)
        with ih obtain r' where r': "res2 = Inr r'"
          and eq: "set r \<union> set (scan_states node tid si results')
                     = set r' \<union> set (scan_states node tid si results)"
          by auto
        let ?S = "set (map instruction_address (filter (is_write tid) (drop si (states node))))"
        from search_mono(2) [OF sl [unfolded r]] have m1: "?S \<subseteq> set r"
          unfolding scan_states_eq by simp
        from search_mono(2) [OF sl' [unfolded r']] have m2: "?S \<subseteq> set r'"
          unfolding scan_states_eq by simp
        from eq have "set r \<union> (set results' \<union> ?S) = set r' \<union> (set results \<union> ?S)"
          unfolding scan_states_eq by simp
        with m1 m2 have "set r \<union> set results' = set r' \<union> set results"
          by blast
        with ih a b r r' show ?thesis by simp
      qed
    qed
  qed
next
  case (2 ss msd tid depth results)
  then show ?case by auto
next
  case (3 ss msd node cs tid depth results)
  obtain lg1 res1 where
    sc: "search_children ss msd node tid 0 (depth + 1) results = (lg1, res1)"
    by (cases "search_children ss msd node tid 0 (depth + 1) results")
  obtain lg2 res2 where
    sc': "search_children ss msd node tid 0 (depth + 1) results' = (lg2, res2)"
    by (cases "search_children ss msd node tid 0 (depth + 1) results'")
  note ih1 = "3.IH"(1) [OF sc sc']
  show ?case
  proof (cases res1)
    case (Inl e)
    with ih1 sc sc' "3.prems" show ?thesis by auto
  next
    case r: (Inr rc)
    with ih1 obtain rc' where rc': "res2 = Inr rc'"
      and eq1: "set rc \<union> set results' = set rc' \<union> set results"
      and lg12: "lg2 = lg1"
      by auto
    obtain lg3 res3 where sl: "search_loop ss msd cs tid depth (rc @ rc) = (lg3, res3)"
      by (cases "search_loop ss msd cs tid depth (rc @ rc)")
    obtain lg4 res4 where sl': "search_loop ss msd cs tid depth (rc' @ rc') = (lg4, res4)"
      by (cases "search_loop ss msd cs tid depth (rc' @ rc')")
    from sc r sl "3.prems"(1) have a: "lg = lg1 @ lg3" "res = res3" by simp_all
    from sc' rc' sl' "3.prems"(2) have b: "lg' = lg2 @ lg4" "res' = res4" by simp_all
    note ih2 = "3.IH"(2) [OF sc [symmetric] r sl sl']
    show ?thesis
    proof (cases res3)
      case (Inl e)
      with ih2 a b lg12 show ?thesis by simp
    next
      case r3: (Inr r3)
      with ih2 obtain r4 where r4: "res4 = Inr r4"
        and eq2: "set r3 \<union> set (rc' @ rc') = set r4 \<union> set (rc @ rc)"
        by auto
      from search_mono(1) [OF sc [unfolded r]] search_mono(1) [OF sc' [unfolded rc']]
        search_mono(2) [OF sl [unfolded r3]] search_mono(2) [OF sl' [unfolded r4]] eq1 eq2
      have "set r3 \<union> set results' = set r4 \<union> set results"
        unfolding set_append by blast
      with ih2 a b lg12 r3 r4 show ?thesis by simp
    qed
  qed
qed

text \<open>
  The loop over the children: the log is the logs of the children's searches in order,
  none of them raises, and the addresses returned are those of the accumulator and of the
  children's searches.
\<close>

lemma search_loop_children:
  "search_loop ss msd cs tid depth acc = (lg, Inr r) \<Longrightarrow>
     lg = concat (map (\<lambda>c. fst (search_children ss msd c tid 0 (depth + 1) [])) cs)
     \<and> (\<forall>c\<in>set cs. \<exists>rc. snd (search_children ss msd c tid 0 (depth + 1) []) = Inr rc)
     \<and> set r = set acc
          \<union> (\<Union>c\<in>set cs. set (projr (snd (search_children ss msd c tid 0 (depth + 1) []))))"
proof (induction cs arbitrary: acc lg)
  case Nil
  then show ?case by simp
next
  case (Cons c cs)
  from Cons.prems obtain lg1 rc lg2 where
    sc: "search_children ss msd c tid 0 (depth + 1) acc = (lg1, Inr rc)"
    and sl: "search_loop ss msd cs tid depth (rc @ rc) = (lg2, Inr r)"
    and lg: "lg = lg1 @ lg2"
    by (auto split: sum.splits prod.splits)
  obtain lg0 res0 where sc0: "search_children ss msd c tid 0 (depth + 1) [] = (lg0, res0)"
    by (cases "search_children ss msd c tid 0 (depth + 1) []")
  from search_acc(1) [OF sc sc0] obtain r0 where
    r0: "lg0 = lg1" "res0 = Inr r0" "set rc = set r0 \<union> set acc"
    by auto
  from Cons.IH [OF sl] r0 sc0 lg show ?case
    by auto
qed

subsection \<open>The examples, evaluated\<close>

lemma chain_children:
  "children_loop (nodes chain_statespace) (uid node_a) (edges chain_statespace) [] = Inr [node_b]"
  "children_loop (nodes chain_statespace) (uid node_b) (edges chain_statespace) [] = Inr [node_c]"
  "children_loop (nodes chain_statespace) (uid node_c) (edges chain_statespace) [] = Inr []"
  by (simp_all add: example_defs)

lemma chain_scan:
  "scan_states node_a 1 1 [] = []"
  "scan_states node_b 1 0 rs = rs"
  "scan_states node_c 1 0 rs = rs @ [0x42]"
  by (simp_all add: example_defs scan_states_def)

lemma chain_search:
  "search_children chain_statespace 64 node_a 1 1 0 [] =
     ([SearchingNode 0, SearchingNode 1, SearchingNode 2], Inr [0x42, 0x42, 0x42, 0x42])"
  by (simp add: search_children.simps example_defs scan_states_def)

subsection \<open>Duplicated results on a single path\<close>

text \<open>
  Claim C10. On the chain, where every node is reached along exactly one path and the
  deepest node holds exactly one storage write of the call's transaction, the list
  returned by \<^verbatim>\<open>search_children\<close> holds the address of that write four times: each of the
  two callers extends the accumulator by the list its child returned, which is the
  accumulator itself.
\<close>

theorem search_children_duplicates_on_chain:
  "children_loop (nodes chain_statespace) (uid node_a) (edges chain_statespace) [] = Inr [node_b]
   \<and> children_loop (nodes chain_statespace) (uid node_b) (edges chain_statespace) [] = Inr [node_c]
   \<and> children_loop (nodes chain_statespace) (uid node_c) (edges chain_statespace) [] = Inr []
   \<and> scan_states node_c 1 0 [] = [0x42]
   \<and> snd (search_children chain_statespace 64 node_a 1 1 0 []) = Inr [0x42, 0x42, 0x42, 0x42]
   \<and> count_list [0x42, 0x42, 0x42, 0x42] (0x42 :: int) = 4"
  using chain_search chain_children chain_scan(3) [of "[]"] by simp

subsection \<open>The call step\<close>

lemma call_step_not_call:
  "call_type call \<noteq> ''CALL'' \<Longrightarrow> call_step ss call self issues = (self, [], Inr issues)"
  by (simp add: call_step_def)

lemma call_step_filtered:
  "call_type call = ''CALL'' \<Longrightarrow> \<not> call_filter call \<Longrightarrow>
     call_step ss call self issues = (self, [call_log call], Inr issues)"
  by (simp add: call_step_def)

lemma call_step_visited:
  "call_type call = ''CALL'' \<Longrightarrow> call_filter call \<Longrightarrow>
   instruction_address (call_state call) \<in> set (calls_visited self) \<Longrightarrow>
     call_step ss call self issues = (self, [call_log call], Inr (issues @ [call_issue ss call]))"
  by (simp add: call_step_def)

lemma call_step_search:
  "call_type call = ''CALL'' \<Longrightarrow> call_filter call \<Longrightarrow>
   instruction_address (call_state call) \<notin> set (calls_visited self) \<Longrightarrow>
     call_step ss call self issues =
       (case search_children ss (max_search_depth self) (call_node call)
               (current_transaction_id (call_state call)) (state_index call + 1) 0 [] of
          (slg, Inl e) \<Rightarrow>
            (self\<lparr>calls_visited := calls_visited self @ [instruction_address (call_state call)]\<rparr>,
             [call_log call, CheckingStateChanges (function_name (call_node call))] @ slg, Inl e)
        | (slg, Inr addrs) \<Rightarrow>
            (self\<lparr>calls_visited := calls_visited self @ [instruction_address (call_state call)]\<rparr>,
             [call_log call, CheckingStateChanges (function_name (call_node call))] @ slg
               @ [DetectedStateChanges addrs],
             Inr (issues @ call_issue ss call # map (state_change_issue call) addrs)))"
  by (simp add: call_step_def Let_def split: prod.splits sum.splits)

lemma call_ex_flagged: "call_type call_ex = ''CALL''" "call_filter call_ex"
  by (simp_all add: call_ex_def call_filter_def)

lemma call_ex_fields:
  "instruction_address (call_state call_ex) = 0x10"
  "call_node call_ex = node_a"
  "current_transaction_id (call_state call_ex) = 1"
  "state_index call_ex = 0"
  "function_name node_a = ''withdraw()''"
  by (simp_all add: call_ex_def call_state_ex_def node_a_def)

lemma chain_execute:
  "execute detector chain_statespace =
     (detector\<lparr>calls_visited := [0x10]\<rparr>,
      [call_log call_ex, CheckingStateChanges ''withdraw()'',
       SearchingNode 0, SearchingNode 1, SearchingNode 2,
       DetectedStateChanges [0x42, 0x42, 0x42, 0x42]],
      Inr [call_issue chain_statespace call_ex,
           state_change_issue call_ex 0x42, state_change_issue call_ex 0x42,
           state_change_issue call_ex 0x42, state_change_issue call_ex 0x42])"
proof -
  have c: "calls chain_statespace = [call_ex]"
    by (simp add: chain_statespace_def)
  have d: "instruction_address (call_state call_ex) \<notin> set (calls_visited detector)"
    "max_search_depth detector = 64" "calls_visited detector = []"
    by (simp_all add: detector_def)
  show ?thesis
    using chain_search
    by (simp add: execute_def c call_step_search [OF call_ex_flagged d(1)] d(2,3) call_ex_fields)
qed

lemma chain_execute_again:
  "execute (detector\<lparr>calls_visited := [0x10]\<rparr>) chain_statespace =
     (detector\<lparr>calls_visited := [0x10]\<rparr>, [call_log call_ex],
      Inr [call_issue chain_statespace call_ex])"
proof -
  have c: "calls chain_statespace = [call_ex]"
    by (simp add: chain_statespace_def)
  have "instruction_address (call_state call_ex)
          \<in> set (calls_visited (detector\<lparr>calls_visited := [0x10]\<rparr>))"
    by (simp add: call_ex_fields)
  from call_step_visited [OF call_ex_flagged this] show ?thesis
    by (simp add: execute_def c)
qed

lemma call_ex_issue:
  "title (call_issue chain_statespace call_ex) = ''Message call to external contract''"
  "issue_type (call_issue chain_statespace call_ex) = ''Warning''"
  "issue_address (call_issue chain_statespace call_ex) = 0x10"
  by (simp_all add: call_issue_def call_description_def call_ex_def call_state_ex_def)

subsection \<open>The end-to-end run on the chain\<close>

text \<open>
  Claim C1. The statespace of the claim is the chain: one call of kind \<^verbatim>\<open>CALL\<close> with
  destination \<^verbatim>\<open>calldata_arg_0\<close> and concrete gas 5000, and a storage write of the same
  transaction at address \<^verbatim>\<open>0x42\<close> two ordinary edges below the call's node. On it
  \<^verbatim>\<open>execute\<close> of the default detector returns five issues and not two: the warning for
  the call, and four times the warning for the state change at \<^verbatim>\<open>0x42\<close>.
\<close>

theorem execute_chain_five_issues:
  "snd (snd (execute detector chain_statespace)) =
     Inr [call_issue chain_statespace call_ex,
          state_change_issue call_ex 0x42, state_change_issue call_ex 0x42,
          state_change_issue call_ex 0x42, state_change_issue call_ex 0x42]
   \<and> title (call_issue chain_statespace call_ex) = ''Message call to external contract''
   \<and> issue_type (call_issue chain_statespace call_ex) = ''Warning''
   \<and> title (state_change_issue call_ex 0x42) = ''State change after external call''
   \<and> issue_type (state_change_issue call_ex 0x42) = ''Warning''
   \<and> issue_address (state_change_issue call_ex 0x42) = 0x42"
  by (simp add: chain_execute call_ex_issue) (simp add: state_change_issue_def)

subsection \<open>Termination of the search\<close>

lemma search_log_length:
  "length (fst (search_children ss msd node tid si depth results))
     \<le> search_bound (length (edges ss)) (nat (msd - depth))"
  "length (fst (search_loop ss msd cs tid depth results))
     \<le> length cs * search_bound (length (edges ss)) (nat (msd - (depth + 1)))"
proof (induction ss msd node tid si depth results and ss msd cs tid depth results
       rule: search_children_search_loop.induct)
  case (1 ss msd node tid si depth results)
  show ?case
  proof (cases "depth < msd")
    case False
    then show ?thesis by (simp add: search_children.simps)
  next
    case True
    then have n: "nat (msd - depth) = Suc (nat (msd - (depth + 1)))" by simp
    show ?thesis
    proof (cases "children_loop (nodes ss) (uid node) (edges ss) []")
      case (Inl e)
      with True show ?thesis by (simp add: search_children.simps n)
    next
      case (Inr cs)
      from children_loop_length [OF Inr] have len: "length cs \<le> length (edges ss)" by simp
      let ?b = "search_bound (length (edges ss)) (nat (msd - (depth + 1)))"
      have "length (fst (search_loop ss msd cs tid depth (scan_states node tid si results)))
              \<le> length cs * ?b"
        using "1.IH" [OF True Inr] .
      also have "\<dots> \<le> length (edges ss) * ?b"
        using len by (rule mult_le_mono1)
      finally show ?thesis
        using True Inr by (auto simp add: search_children.simps n split: prod.splits)
    qed
  qed
next
  case (2 ss msd tid depth results)
  show ?case by simp
next
  case (3 ss msd node cs tid depth results)
  let ?b = "search_bound (length (edges ss)) (nat (msd - (depth + 1)))"
  obtain lg r where sc: "search_children ss msd node tid 0 (depth + 1) results = (lg, r)"
    by (cases "search_children ss msd node tid 0 (depth + 1) results")
  have l1: "length lg \<le> ?b" using "3.IH"(1) sc by simp
  show ?case
  proof (cases r)
    case (Inl e)
    with sc l1 show ?thesis by simp
  next
    case (Inr rs)
    obtain lg' r' where sl: "search_loop ss msd cs tid depth (rs @ rs) = (lg', r')"
      by (cases "search_loop ss msd cs tid depth (rs @ rs)")
    have "length lg' \<le> length cs * ?b"
      using "3.IH"(2) [OF sc [symmetric] Inr] sl by simp
    with l1 show ?thesis using sc Inr sl by simp
  qed
qed

lemma search_dom: "search_children_search_loop_dom x"
proof -
  have "All search_children_search_loop_dom"
    by (relation "measures
        [\<lambda>x. case x of
                Inl (statespace, msd, node, transaction_id, start_index, depth, results) \<Rightarrow>
                  nat (msd + 1 - depth)
              | Inr (statespace, msd, children, transaction_id, depth, results) \<Rightarrow>
                  nat (msd - depth),
         \<lambda>x. case x of
                Inl a \<Rightarrow> 0
              | Inr (statespace, msd, children, transaction_id, depth, results) \<Rightarrow>
                  length children + 1]") auto
  then show ?thesis ..
qed

text \<open>
  Claim C9. For every statespace, with or without cycles among its ordinary edges, and
  every node, start index, depth and transaction id, the recursion of
  \<^verbatim>\<open>search_children\<close> is well founded: the arguments lie in the domain on which the
  recursive calls terminate, since a recursive call is made under \<^verbatim>\<open>depth < msd\<close> only
  and at \<^verbatim>\<open>depth + 1\<close>. The number of invocations, one for each record
  \<^verbatim>\<open>SEARCHING NODE\<close> in the log, is at most \<open>1 + e + \<dots> + e ^ n\<close> for \<open>e\<close> edges and
  \<open>n\<close> levels between the depth and the maximum.
\<close>

theorem search_children_terminates:
  "search_children_search_loop_dom
     (Inl (statespace, msd, node, transaction_id, start_index, depth, results))
   \<and> length (fst (search_children statespace msd node transaction_id start_index depth results))
       \<le> search_bound (length (edges statespace)) (nat (msd - depth))"
  using search_dom search_log_length(1) by blast


subsection \<open>What one invocation of the search scans\<close>

text \<open>
  The scan appends the addresses of the states, from the start index on, whose opcode is
  \<^verbatim>\<open>SSTORE\<close> and whose transaction is the given one, and nothing else.
\<close>

lemma scan_states_set:
  "set (scan_states node tid si results) =
     set results
     \<union> instruction_address `
         {s \<in> set (drop si (states node)).
            instruction_opcode s = ''SSTORE'' \<and> current_transaction_id s = tid}"
  by (auto simp add: scan_states_eq is_write_def)

text \<open>
  One invocation below the maximal depth: the addresses returned are those of the
  accumulator, of the storage writes of the transaction in the node from the start index
  on, and of the searches of the children, which start from the empty accumulator at
  \<^verbatim>\<open>depth + 1\<close> and index 0.
\<close>

lemma search_children_unfold:
  assumes "depth < msd"
    and "search_children ss msd node tid si depth results = (lg, Inr r)"
  shows "\<exists>cs. children_loop (nodes ss) (uid node) (edges ss) [] = Inr cs
     \<and> lg = SearchingNode (uid node)
              # concat (map (\<lambda>c. fst (search_children ss msd c tid 0 (depth + 1) [])) cs)
     \<and> (\<forall>c\<in>set cs. \<exists>rc. snd (search_children ss msd c tid 0 (depth + 1) []) = Inr rc)
     \<and> set r = set results
          \<union> instruction_address `
              {s \<in> set (drop si (states node)).
                 instruction_opcode s = ''SSTORE'' \<and> current_transaction_id s = tid}
          \<union> (\<Union>c\<in>set cs. set (projr (snd (search_children ss msd c tid 0 (depth + 1) []))))"
proof -
  from assms obtain cs lg1 where
    cs: "children_loop (nodes ss) (uid node) (edges ss) [] = Inr cs"
    and sl: "search_loop ss msd cs tid depth (scan_states node tid si results) = (lg1, Inr r)"
    and lg: "lg = SearchingNode (uid node) # lg1"
    by (auto simp add: search_children.simps split: sum.splits prod.splits)
  from search_loop_children [OF sl] cs lg show ?thesis
    by (simp add: scan_states_set)
qed

text \<open>
  Claim C3, as stated, fails. With a maximal depth of 1 the node with the storage write
  is a child of the call's node by an ordinary edge and is entered at depth 1: the
  invocation at depth 0, which is below the maximum, recurses into it, and the child
  returns at once without scanning its states. The write at \<^verbatim>\<open>0x42\<close> is not recorded.
\<close>

theorem child_at_max_depth_not_scanned:
  "(0 :: int) < 1
   \<and> children_loop (nodes direct_statespace) (uid node_a) (edges direct_statespace) []
       = Inr [node_c]
   \<and> scan_states node_c 1 0 [] = [0x42]
   \<and> search_children direct_statespace 1 node_a 1 1 0 []
       = ([SearchingNode 0, SearchingNode 2], Inr [])"
  by (simp add: search_children.simps example_defs scan_states_def)

text \<open>
  Claim C3, amended. An invocation at a depth below the maximum that raises no exception
  invokes the search on every child, in order, at \<^verbatim>\<open>depth + 1\<close> with start index 0 and
  the same transaction id; the children are the nodes at the end of the edges that leave
  the node and are not transaction edges. The addresses returned are exactly those of the
  accumulator, of the states of the node from the start index on whose opcode is
  \<^verbatim>\<open>SSTORE\<close> and whose transaction is the call's, and of the children's searches. When
  \<^verbatim>\<open>depth + 1\<close> is below the maximum too, the search of a child returns exactly the
  addresses of the states of the child, anywhere in its sequence, whose opcode is
  \<^verbatim>\<open>SSTORE\<close> and whose transaction is the call's, and those of the searches of its own
  children. A child entered at the maximal depth is not scanned: its search logs the node
  and returns the accumulator as it is.
\<close>

theorem search_children_below_max_depth:
  assumes "depth < msd"
    and "search_children ss msd node tid si depth results = (lg, Inr r)"
  shows "\<exists>cs. children_loop (nodes ss) (uid node) (edges ss) [] = Inr cs
     \<and> set cs = {c. \<exists>e\<in>set (edges ss). node_from e = uid node \<and> edge_type e \<noteq> Transaction
                                 \<and> nodes ss (node_to e) = Some c}
     \<and> lg = SearchingNode (uid node)
              # concat (map (\<lambda>c. fst (search_children ss msd c tid 0 (depth + 1) [])) cs)
     \<and> (\<forall>c\<in>set cs. \<exists>rc. snd (search_children ss msd c tid 0 (depth + 1) []) = Inr rc)
     \<and> set r = set results
          \<union> instruction_address `
              {s \<in> set (drop si (states node)).
                 instruction_opcode s = ''SSTORE'' \<and> current_transaction_id s = tid}
          \<union> (\<Union>c\<in>set cs. set (projr (snd (search_children ss msd c tid 0 (depth + 1) []))))
     \<and> (depth + 1 < msd \<longrightarrow>
          (\<forall>c\<in>set cs. \<exists>gcs.
             children_loop (nodes ss) (uid c) (edges ss) [] = Inr gcs
             \<and> set gcs = {g. \<exists>e\<in>set (edges ss). node_from e = uid c
                               \<and> edge_type e \<noteq> Transaction \<and> nodes ss (node_to e) = Some g}
             \<and> set (projr (snd (search_children ss msd c tid 0 (depth + 1) []))) =
                 instruction_address `
                   {s \<in> set (states c).
                      instruction_opcode s = ''SSTORE'' \<and> current_transaction_id s = tid}
                 \<union> (\<Union>g\<in>set gcs.
                       set (projr (snd (search_children ss msd g tid 0 (depth + 1 + 1) []))))))
     \<and> (\<not> depth + 1 < msd \<longrightarrow>
          (\<forall>c\<in>set cs. search_children ss msd c tid 0 (depth + 1) []
                         = ([SearchingNode (uid c)], Inr []))
          \<and> set r = set results
               \<union> instruction_address `
                   {s \<in> set (drop si (states node)).
                      instruction_opcode s = ''SSTORE'' \<and> current_transaction_id s = tid})"
proof -
  let ?child = "\<lambda>c. search_children ss msd c tid 0 (depth + 1) []"
  let ?writes = "\<lambda>n i. instruction_address `
                   {s \<in> set (drop i (states n)).
                      instruction_opcode s = ''SSTORE'' \<and> current_transaction_id s = tid}"
  from search_children_unfold [OF assms] obtain cs where
    cs: "children_loop (nodes ss) (uid node) (edges ss) [] = Inr cs"
    and s2: "lg = SearchingNode (uid node) # concat (map (\<lambda>c. fst (?child c)) cs)"
    and s3: "\<forall>c\<in>set cs. \<exists>rc. snd (?child c) = Inr rc"
    and s4: "set r = set results \<union> ?writes node si
               \<union> (\<Union>c\<in>set cs. set (projr (snd (?child c))))"
    by blast
  have s1: "set cs = {c. \<exists>e\<in>set (edges ss). node_from e = uid node
              \<and> edge_type e \<noteq> Transaction \<and> nodes ss (node_to e) = Some c}"
    using children_loop_eq [OF cs] by simp
  have s5: "\<exists>gcs. children_loop (nodes ss) (uid c) (edges ss) [] = Inr gcs
             \<and> set gcs = {g. \<exists>e\<in>set (edges ss). node_from e = uid c
                               \<and> edge_type e \<noteq> Transaction \<and> nodes ss (node_to e) = Some g}
             \<and> set (projr (snd (?child c))) =
                 instruction_address `
                   {s \<in> set (states c).
                      instruction_opcode s = ''SSTORE'' \<and> current_transaction_id s = tid}
                 \<union> (\<Union>g\<in>set gcs.
                       set (projr (snd (search_children ss msd g tid 0 (depth + 1 + 1) []))))"
    if d: "depth + 1 < msd" and c: "c \<in> set cs" for c
  proof -
    from s3 c obtain lgc rc where rc: "?child c = (lgc, Inr rc)"
      by (cases "?child c") auto
    from search_children_unfold [OF d rc] obtain gcs where
      g: "children_loop (nodes ss) (uid c) (edges ss) [] = Inr gcs"
      and e: "set rc = set [] \<union> ?writes c 0
                \<union> (\<Union>g\<in>set gcs.
                      set (projr (snd (search_children ss msd g tid 0 (depth + 1 + 1) []))))"
      by blast
    from children_loop_eq [OF g] have
      "set gcs = {g. \<exists>e\<in>set (edges ss). node_from e = uid c
                   \<and> edge_type e \<noteq> Transaction \<and> nodes ss (node_to e) = Some g}"
      by simp
    with g e rc show ?thesis by simp
  qed
  have s6: "?child c = ([SearchingNode (uid c)], Inr [])" if "\<not> depth + 1 < msd" for c
    using that by (simp add: search_children.simps)
  have s7: "set r = set results \<union> ?writes node si" if "\<not> depth + 1 < msd"
    using s4 s6 [OF that] by simp
  show ?thesis
    apply (rule exI [of _ cs])
    apply (intro conjI impI ballI)
    subgoal by (fact cs)
    subgoal by (fact s1)
    subgoal by (fact s2)
    subgoal for c using s3 by blast
    subgoal by (fact s4)
    subgoal for c by (rule s5)
    subgoal for c by (rule s6)
    subgoal by (rule s7)
    done
qed

lemma busy_search:
  "search_children busy_statespace 64 node_e 1 2 0 [] =
     ([SearchingNode 4, SearchingNode 5], Inr [0x20, 0x42, 0x20, 0x42])"
  by (simp add: search_children.simps example_defs scan_states_def)

lemma busy_facts:
  "children_loop (nodes busy_statespace) (uid node_e) (edges busy_statespace) [] = Inr [node_f]"
  "children_loop (nodes busy_statespace) (uid node_f) (edges busy_statespace) [] = Inr []"
  "search_children busy_statespace 64 node_f 1 0 (0 + 1) [] = ([SearchingNode 5], Inr [0x42])"
  by (simp_all add: search_children.simps example_defs scan_states_def)

lemma busy_writes:
  "instruction_address `
     {s \<in> set (drop 2 (states node_e)).
        instruction_opcode s = ''SSTORE'' \<and> current_transaction_id s = 1} = {0x20}"
  "instruction_address `
     {s \<in> set (states node_f).
        instruction_opcode s = ''SSTORE'' \<and> current_transaction_id s = 1} = {0x42}"
proof -
  have "scan_states node_e 1 2 [] = [0x20]" "scan_states node_f 1 0 [] = [0x42]"
    by (simp_all add: example_defs scan_states_def)
  with scan_states_set [of node_e 1 2 "[]"] scan_states_set [of node_f 1 0 "[]"]
  show "instruction_address `
     {s \<in> set (drop 2 (states node_e)).
        instruction_opcode s = ''SSTORE'' \<and> current_transaction_id s = 1} = {0x20}"
    "instruction_address `
     {s \<in> set (states node_f).
        instruction_opcode s = ''SSTORE'' \<and> current_transaction_id s = 1} = {0x42}"
    by simp_all
qed

theorem search_children_below_max_depth_witness:
  "(0 :: int) < 64
   \<and> search_children busy_statespace 64 node_e 1 2 0 []
       = ([SearchingNode 4, SearchingNode 5], Inr [0x20, 0x42, 0x20, 0x42])
   \<and> children_loop (nodes busy_statespace) (uid node_e) (edges busy_statespace) [] = Inr [node_f]
   \<and> children_loop (nodes busy_statespace) (uid node_f) (edges busy_statespace) [] = Inr []
   \<and> search_children busy_statespace 64 node_f 1 0 (0 + 1) [] = ([SearchingNode 5], Inr [0x42])
   \<and> instruction_address `
        {s \<in> set (drop 2 (states node_e)).
           instruction_opcode s = ''SSTORE'' \<and> current_transaction_id s = 1} = {0x20}
   \<and> instruction_address `
        {s \<in> set (states node_f).
           instruction_opcode s = ''SSTORE'' \<and> current_transaction_id s = 1} = {0x42}
   \<and> (\<exists>cs. children_loop (nodes busy_statespace) (uid node_e) (edges busy_statespace) [] = Inr cs
     \<and> set cs = {c. \<exists>e\<in>set (edges busy_statespace). node_from e = uid node_e
                     \<and> edge_type e \<noteq> Transaction \<and> nodes busy_statespace (node_to e) = Some c}
     \<and> [SearchingNode 4, SearchingNode 5] = SearchingNode (uid node_e)
          # concat (map (\<lambda>c. fst (search_children busy_statespace 64 c 1 0 (0 + 1) [])) cs)
     \<and> (\<forall>c\<in>set cs. \<exists>rc. snd (search_children busy_statespace 64 c 1 0 (0 + 1) []) = Inr rc)
     \<and> set [0x20, 0x42, 0x20, 0x42] = set []
          \<union> instruction_address `
              {s \<in> set (drop 2 (states node_e)).
                 instruction_opcode s = ''SSTORE'' \<and> current_transaction_id s = 1}
          \<union> (\<Union>c\<in>set cs. set (projr (snd (search_children busy_statespace 64 c 1 0 (0 + 1) []))))
     \<and> (0 + 1 < (64 :: int) \<longrightarrow>
          (\<forall>c\<in>set cs. \<exists>gcs.
             children_loop (nodes busy_statespace) (uid c) (edges busy_statespace) [] = Inr gcs
             \<and> set gcs = {g. \<exists>e\<in>set (edges busy_statespace). node_from e = uid c
                               \<and> edge_type e \<noteq> Transaction
                               \<and> nodes busy_statespace (node_to e) = Some g}
             \<and> set (projr (snd (search_children busy_statespace 64 c 1 0 (0 + 1) []))) =
                 instruction_address `
                   {s \<in> set (states c).
                      instruction_opcode s = ''SSTORE'' \<and> current_transaction_id s = 1}
                 \<union> (\<Union>g\<in>set gcs.
                       set (projr (snd (search_children busy_statespace 64 g 1 0 (0 + 1 + 1) []))))))
     \<and> (\<not> 0 + 1 < (64 :: int) \<longrightarrow>
          (\<forall>c\<in>set cs. search_children busy_statespace 64 c 1 0 (0 + 1) []
                         = ([SearchingNode (uid c)], Inr []))
          \<and> set [0x20, 0x42, 0x20, 0x42] = set []
               \<union> instruction_address `
                   {s \<in> set (drop 2 (states node_e)).
                      instruction_opcode s = ''SSTORE'' \<and> current_transaction_id s = 1}))"
proof -
  have h1: "(0 :: int) < 64" by simp
  note h2 = busy_search
  from h1 h2 busy_facts busy_writes search_children_below_max_depth [OF h1 h2] show ?thesis
    by (intro conjI)
qed

subsection \<open>Transaction edges\<close>

lemma search_log_reach:
  "search_children ss msd node tid si depth results = (lg, res) \<Longrightarrow>
     \<exists>rest. lg = SearchingNode (uid node) # rest
       \<and> (\<forall>x\<in>set rest. \<exists>c. x = SearchingNode (uid c) \<and> (intra_step ss)\<^sup>+\<^sup>+ node c)"
  "search_loop ss msd cs tid depth results = (lg, res) \<Longrightarrow>
     \<forall>x\<in>set lg. \<exists>c0 c. c0 \<in> set cs \<and> x = SearchingNode (uid c) \<and> (intra_step ss)\<^sup>*\<^sup>* c0 c"
proof (induction ss msd node tid si depth results and ss msd cs tid depth results
       arbitrary: lg res and lg res rule: search_children_search_loop.induct)
  case (1 ss msd node tid si depth results)
  show ?case
  proof (cases "depth < msd")
    case False
    with "1.prems" show ?thesis by (auto simp add: search_children.simps)
  next
    case True
    show ?thesis
    proof (cases "children_loop (nodes ss) (uid node) (edges ss) []")
      case (Inl e)
      with True "1.prems" show ?thesis by (auto simp add: search_children.simps)
    next
      case (Inr cs)
      with True "1.prems" obtain lg1 where
        sl: "search_loop ss msd cs tid depth (scan_states node tid si results) = (lg1, res)"
        and lg: "lg = SearchingNode (uid node) # lg1"
        by (auto simp add: search_children.simps split: prod.splits)
      have "\<exists>c. x = SearchingNode (uid c) \<and> (intra_step ss)\<^sup>+\<^sup>+ node c" if "x \<in> set lg1" for x
      proof -
        from "1.IH" [OF True Inr sl] that obtain c0 c where
          c0: "c0 \<in> set cs" and x: "x = SearchingNode (uid c)" and r: "(intra_step ss)\<^sup>*\<^sup>* c0 c"
          by blast
        from children_loop_eq [OF Inr] c0 have "intra_step ss node c0"
          by (auto simp add: intra_step_def)
        from this r have "(intra_step ss)\<^sup>+\<^sup>+ node c" by (rule rtranclp_into_tranclp2)
        with x show ?thesis by blast
      qed
      with lg show ?thesis by blast
    qed
  qed
next
  case (2 ss msd tid depth results)
  then show ?case by simp
next
  case (3 ss msd node cs tid depth results)
  obtain lg1 res1 where
    sc: "search_children ss msd node tid 0 (depth + 1) results = (lg1, res1)"
    by (cases "search_children ss msd node tid 0 (depth + 1) results")
  from "3.IH"(1) [OF sc] obtain rest where
    rest: "lg1 = SearchingNode (uid node) # rest"
      "\<forall>x\<in>set rest. \<exists>c. x = SearchingNode (uid c) \<and> (intra_step ss)\<^sup>+\<^sup>+ node c"
    by blast
  have h1: "\<exists>c. x = SearchingNode (uid c) \<and> (intra_step ss)\<^sup>*\<^sup>* node c"
    if "x \<in> set lg1" for x
  proof (cases "x = SearchingNode (uid node)")
    case True
    then show ?thesis by blast
  next
    case False
    with that rest obtain c where "x = SearchingNode (uid c)" "(intra_step ss)\<^sup>+\<^sup>+ node c"
      by auto
    then show ?thesis by (blast dest: tranclp_into_rtranclp)
  qed
  show ?case
  proof (cases res1)
    case (Inl e)
    with sc "3.prems" have lg: "lg = lg1" by simp
    show ?thesis
    proof
      fix x
      assume "x \<in> set lg"
      with lg h1 obtain c where "x = SearchingNode (uid c)" "(intra_step ss)\<^sup>*\<^sup>* node c"
        by blast
      then show "\<exists>c0 c. c0 \<in> set (node # cs) \<and> x = SearchingNode (uid c)
                   \<and> (intra_step ss)\<^sup>*\<^sup>* c0 c"
        by (intro exI [of _ node] exI [of _ c]) simp
    qed
  next
    case (Inr rc)
    obtain lg2 res2 where sl: "search_loop ss msd cs tid depth (rc @ rc) = (lg2, res2)"
      by (cases "search_loop ss msd cs tid depth (rc @ rc)")
    with sc Inr "3.prems" have lg: "lg = lg1 @ lg2" by simp
    note ih2 = "3.IH"(2) [OF sc [symmetric] Inr sl]
    show ?thesis
    proof
      fix x
      assume "x \<in> set lg"
      with lg consider "x \<in> set lg1" | "x \<in> set lg2" by auto
      then show "\<exists>c0 c. c0 \<in> set (node # cs) \<and> x = SearchingNode (uid c)
                   \<and> (intra_step ss)\<^sup>*\<^sup>* c0 c"
      proof cases
        case 1
        from h1 [OF 1] obtain c where "x = SearchingNode (uid c)" "(intra_step ss)\<^sup>*\<^sup>* node c"
          by blast
        then show ?thesis by (intro exI [of _ node] exI [of _ c]) simp
      next
        case 2
        with ih2 obtain c0 c where "c0 \<in> set cs" "x = SearchingNode (uid c)"
          "(intra_step ss)\<^sup>*\<^sup>* c0 c"
          by blast
        then show ?thesis by (intro exI [of _ c0] exI [of _ c]) simp
      qed
    qed
  qed
qed

lemma search_ignores_transaction_edges:
  "search_children (drop_transaction_edges ss) msd node tid si depth results
     = search_children ss msd node tid si depth results"
  "search_loop (drop_transaction_edges ss) msd cs tid depth results
     = search_loop ss msd cs tid depth results"
proof (induction ss msd node tid si depth results and ss msd cs tid depth results
       rule: search_children_search_loop.induct)
  case (1 ss msd node tid si depth results)
  have c: "children_loop (nodes (drop_transaction_edges ss)) (uid node)
             (edges (drop_transaction_edges ss)) []
           = children_loop (nodes ss) (uid node) (edges ss) []"
    by (simp add: drop_transaction_edges_def children_loop_filter)
  show ?case
  proof (cases "depth < msd")
    case False
    then show ?thesis by (simp add: search_children.simps)
  next
    case True
    show ?thesis
    proof (cases "children_loop (nodes ss) (uid node) (edges ss) []")
      case (Inl e)
      with True c show ?thesis by (simp add: search_children.simps)
    next
      case (Inr cs)
      from "1.IH" [OF True Inr] True Inr c show ?thesis
        by (simp add: search_children.simps)
    qed
  qed
next
  case (2 ss msd tid depth results)
  show ?case by simp
next
  case (3 ss msd node cs tid depth results)
  obtain lg1 res1 where
    sc: "search_children ss msd node tid 0 (depth + 1) results = (lg1, res1)"
    by (cases "search_children ss msd node tid 0 (depth + 1) results")
  show ?case
  proof (cases res1)
    case (Inl e)
    with sc "3.IH"(1) show ?thesis by simp
  next
    case (Inr rc)
    with sc "3.IH"(1) "3.IH"(2) [OF sc [symmetric] Inr] show ?thesis by simp
  qed
qed

text \<open>
  Claim C8. The search never follows a transaction edge. The log of an invocation starts
  with the record of the starting node, and every further record is that of a node
  reached from the starting node by one or more steps, each along an edge that is not a
  transaction edge. Moreover the transaction edges have no effect at all: on the
  statespace without them the search logs and returns the same.
\<close>

theorem search_never_follows_transaction_edge:
  "(\<exists>rest. fst (search_children ss msd node tid si depth results) = SearchingNode (uid node) # rest
      \<and> (\<forall>x\<in>set rest. \<exists>c. x = SearchingNode (uid c) \<and> (intra_step ss)\<^sup>+\<^sup>+ node c))
   \<and> search_children (drop_transaction_edges ss) msd node tid si depth results
       = search_children ss msd node tid si depth results"
proof -
  obtain lg res where "search_children ss msd node tid si depth results = (lg, res)"
    by (cases "search_children ss msd node tid si depth results")
  from search_log_reach(1) [OF this] this search_ignores_transaction_edges(1) show ?thesis
    by simp
qed

lemma boundary_search:
  "search_children boundary_statespace 64 node_a 1 1 0 [] =
     ([SearchingNode 0, SearchingNode 1, SearchingNode 2], Inr [0x42, 0x42, 0x42, 0x42])"
  by (simp add: search_children.simps example_defs scan_states_def)

theorem search_never_follows_transaction_edge_witness:
  "edge_type (edges boundary_statespace ! 1) = Transaction
   \<and> node_from (edges boundary_statespace ! 1) = uid node_b
   \<and> nodes boundary_statespace (node_to (edges boundary_statespace ! 1)) = Some node_d
   \<and> fst (search_children boundary_statespace 64 node_a 1 1 0 [])
       = [SearchingNode 0, SearchingNode 1, SearchingNode 2]
   \<and> SearchingNode (uid node_d) \<notin> set (fst (search_children boundary_statespace 64 node_a 1 1 0 []))
   \<and> (\<exists>rest. [SearchingNode 0, SearchingNode 1, SearchingNode 2] = SearchingNode (uid node_a) # rest
        \<and> (\<forall>x\<in>set rest. \<exists>c. x = SearchingNode (uid c)
              \<and> (intra_step boundary_statespace)\<^sup>+\<^sup>+ node_a c))
   \<and> search_children (drop_transaction_edges boundary_statespace) 64 node_a 1 1 0 []
       = ([SearchingNode 0, SearchingNode 1, SearchingNode 2], Inr [0x42, 0x42, 0x42, 0x42])"
proof -
  have e: "edge_type (edges boundary_statespace ! 1) = Transaction"
    "node_from (edges boundary_statespace ! 1) = uid node_b"
    "nodes boundary_statespace (node_to (edges boundary_statespace ! 1)) = Some node_d"
    by (simp_all add: example_defs)
  have d: "SearchingNode (uid node_d)
             \<notin> set (fst (search_children boundary_statespace 64 node_a 1 1 0 []))"
    unfolding boundary_search by (simp add: node_d_def)
  from search_never_follows_transaction_edge [of boundary_statespace 64 node_a 1 1 0 "[]"]
    e d show ?thesis
    unfolding boundary_search fst_conv by (intro conjI) simp_all
qed


subsection \<open>The filter on gas and destination\<close>

lemma py_in_sublist: "py_in sub s = sublist sub s"
  by (induction s) (simp_all add: sublist_Cons_right)

lemma call_filter_eq:
  "call_filter call =
     ((\<exists>t g. call_to call = Symbolic t \<and> call_gas call = Concrete g \<and> 2300 < g)
      \<or> (\<exists>t. call_gas call = Symbolic t \<and> \<not> sublist ''2300'' t))"
  by (cases "call_to call"; cases "call_gas call") (simp_all add: call_filter_def py_in_sublist)

lemma call_step_flagged:
  assumes "call_type call = ''CALL''" and "call_filter call"
  shows "(\<exists>rest. snd (snd (call_step ss call self issues))
                    = Inr (issues @ call_issue ss call # rest))
         \<or> (\<exists>e. snd (snd (call_step ss call self issues)) = Inl e)"
proof (cases "instruction_address (call_state call) \<in> set (calls_visited self)")
  case True
  with assms show ?thesis by (simp add: call_step_visited)
next
  case False
  with assms show ?thesis
    by (auto simp add: call_step_search split: prod.splits sum.splits)
qed

text \<open>
  Claim C2. For a call of kind \<^verbatim>\<open>CALL\<close> the filter holds exactly when (a) the destination is
  symbolic and the gas is concrete and greater than 2300, or (b) the gas is symbolic and
  its text does not contain \<^verbatim>\<open>2300\<close>. When it holds, the step builds the issue of the
  call and appends it (or the search raises); when it does not, the step leaves the
  issues and the detector as they are. A call with a symbolic destination and concrete gas
  of at most 2300 is not flagged; a call with a concrete destination and symbolic gas
  whose text lacks \<^verbatim>\<open>2300\<close> is flagged.
\<close>

theorem call_filter_rule:
  assumes "call_type call = ''CALL''"
  shows "(call_filter call
            = ((\<exists>t g. call_to call = Symbolic t \<and> call_gas call = Concrete g \<and> 2300 < g)
               \<or> (\<exists>t. call_gas call = Symbolic t \<and> \<not> sublist ''2300'' t)))
     \<and> (call_filter call
            = ((\<exists>rest. snd (snd (call_step ss call self issues))
                          = Inr (issues @ call_issue ss call # rest))
               \<or> (\<exists>e. snd (snd (call_step ss call self issues)) = Inl e)))
     \<and> ((\<not> call_filter call)
            = (call_step ss call self issues = (self, [call_log call], Inr issues)))
     \<and> (\<forall>t g. call_to call = Symbolic t \<and> call_gas call = Concrete g \<and> g \<le> 2300
            \<longrightarrow> call_step ss call self issues = (self, [call_log call], Inr issues))
     \<and> (\<forall>d t. call_to call = Concrete d \<and> call_gas call = Symbolic t \<and> \<not> sublist ''2300'' t
            \<longrightarrow> (\<exists>rest. snd (snd (call_step ss call self issues))
                          = Inr (issues @ call_issue ss call # rest))
                \<or> (\<exists>e. snd (snd (call_step ss call self issues)) = Inl e))"
proof -
  have not_flagged: "call_step ss call self issues = (self, [call_log call], Inr issues)"
    if "\<not> call_filter call"
    using assms that by (rule call_step_filtered)
  have flagged: "(\<exists>rest. snd (snd (call_step ss call self issues))
                            = Inr (issues @ call_issue ss call # rest))
                 \<or> (\<exists>e. snd (snd (call_step ss call self issues)) = Inl e)"
    if "call_filter call"
    using assms that by (rule call_step_flagged)
  have p2: "call_filter call
            = ((\<exists>rest. snd (snd (call_step ss call self issues))
                          = Inr (issues @ call_issue ss call # rest))
               \<or> (\<exists>e. snd (snd (call_step ss call self issues)) = Inl e))"
  proof (cases "call_filter call")
    case True
    with flagged show ?thesis by simp
  next
    case False
    with not_flagged show ?thesis by simp
  qed
  have p3: "(\<not> call_filter call)
            = (call_step ss call self issues = (self, [call_log call], Inr issues))"
  proof (cases "call_filter call")
    case True
    with flagged show ?thesis by auto
  next
    case False
    with not_flagged show ?thesis by simp
  qed
  have p4: "call_step ss call self issues = (self, [call_log call], Inr issues)"
    if "call_to call = Symbolic t \<and> call_gas call = Concrete g \<and> g \<le> 2300" for t g
    using that by (intro not_flagged) (simp add: call_filter_eq)
  have p5: "(\<exists>rest. snd (snd (call_step ss call self issues))
                       = Inr (issues @ call_issue ss call # rest))
            \<or> (\<exists>e. snd (snd (call_step ss call self issues)) = Inl e)"
    if "call_to call = Concrete d \<and> call_gas call = Symbolic t \<and> \<not> sublist ''2300'' t" for d t
    using that by (intro flagged) (simp add: call_filter_eq)
  from call_filter_eq p2 p3 p4 p5 show ?thesis
    by blast
qed

lemma twice_search:
  "search_children twice_statespace 64 node_a 1 1 0 [] =
     ([SearchingNode 0, SearchingNode 1, SearchingNode 2], Inr [0x42, 0x42, 0x42, 0x42])"
  by (simp add: search_children.simps example_defs scan_states_def)

lemma call_fixed_step:
  "call_step chain_statespace call_fixed detector [] =
     (detector\<lparr>calls_visited := [0x10]\<rparr>,
      [call_log call_fixed, CheckingStateChanges ''withdraw()'',
       SearchingNode 0, SearchingNode 1, SearchingNode 2,
       DetectedStateChanges [0x42, 0x42, 0x42, 0x42]],
      Inr (call_issue chain_statespace call_fixed
             # map (state_change_issue call_fixed) [0x42, 0x42, 0x42, 0x42]))"
proof -
  have f: "call_type call_fixed = ''CALL''" "call_filter call_fixed"
    by (simp_all add: call_fixed_def call_ex_def call_filter_def)
  have d: "instruction_address (call_state call_fixed) \<notin> set (calls_visited detector)"
    by (simp add: detector_def)
  have e: "max_search_depth detector = 64" "calls_visited detector = []"
    "call_node call_fixed = node_a" "current_transaction_id (call_state call_fixed) = 1"
    "state_index call_fixed = 0" "function_name node_a = ''withdraw()''"
    "instruction_address (call_state call_fixed) = 0x10"
    by (simp_all add: detector_def call_fixed_def call_ex_def call_state_ex_def node_a_def)
  show ?thesis
    using chain_search by (simp add: call_step_search [OF f d] e)
qed

theorem call_filter_rule_witness:
  "call_type call_fixed = ''CALL''
   \<and> call_to call_fixed = Concrete 0xdead
   \<and> call_gas call_fixed = Symbolic ''gas_limit''
   \<and> call_filter call_fixed
   \<and> snd (snd (call_step chain_statespace call_fixed detector []))
       = Inr ([] @ call_issue chain_statespace call_fixed
                # map (state_change_issue call_fixed) [0x42, 0x42, 0x42, 0x42])
   \<and> call_type call_stipend = ''CALL''
   \<and> call_to call_stipend = Symbolic ''calldata_arg_0''
   \<and> call_gas call_stipend = Concrete 2300
   \<and> \<not> call_filter call_stipend
   \<and> call_step chain_statespace call_stipend detector []
       = (detector, [call_log call_stipend], Inr [])"
proof -
  have f: "call_type call_fixed = ''CALL''" "call_to call_fixed = Concrete 0xdead"
    "call_gas call_fixed = Symbolic ''gas_limit''"
    by (simp_all add: call_fixed_def call_ex_def)
  have s: "call_type call_stipend = ''CALL''" "call_to call_stipend = Symbolic ''calldata_arg_0''"
    "call_gas call_stipend = Concrete 2300"
    by (simp_all add: call_stipend_def call_ex_def)
  have n: "\<not> sublist ''2300'' ''gas_limit''"
    by (simp add: py_in_sublist [symmetric])
  from call_filter_rule [OF f(1), of chain_statespace detector "[]"] f n
  have ff: "call_filter call_fixed" by simp
  from call_filter_rule [OF s(1), of chain_statespace detector "[]"] s
  have sf: "\<not> call_filter call_stipend"
    "call_step chain_statespace call_stipend detector [] = (detector, [call_log call_stipend], Inr [])"
    by simp_all
  from f s ff sf call_fixed_step show ?thesis
    by simp
qed


subsection \<open>Classification of the destination\<close>

lemma call_issue_title:
  "title (call_issue ss call) = ''Message call to external contract''"
  by (simp add: call_issue_def Let_def split: prod.splits)

lemma state_change_issue_title:
  "title (state_change_issue call a) = ''State change after external call''"
  by (simp add: state_change_issue_def)

lemma no_call_title_in_state_changes:
  "filter (\<lambda>i. title i = ''Message call to external contract'')
     (map (state_change_issue call) addrs) = []"
  by (induction addrs) (simp_all add: state_change_issue_title)

lemma call_step_issues:
  assumes "call_type call = ''CALL''" and "call_filter call"
    and "call_step ss call self issues = (self', lg, Inr issues')"
  shows "\<exists>addrs. issues' = issues @ call_issue ss call # map (state_change_issue call) addrs"
proof (cases "instruction_address (call_state call) \<in> set (calls_visited self)")
  case True
  with assms have "issues' = issues @ call_issue ss call # map (state_change_issue call) []"
    by (simp add: call_step_visited)
  then show ?thesis by blast
next
  case False
  with assms show ?thesis
    by (auto simp add: call_step_search split: prod.splits sum.splits)
qed

lemma classify_argument:
  assumes "sublist ''calldata'' (str_var (call_to call))"
  shows "issue_type (call_issue ss call) = ''Warning''"
    and "description (call_issue ss call) =
           ''This contract executes a message call to ''
           @ ''an address provided as a function argument. '' @ user_supplied_advice"
  using assms by (simp_all add: call_issue_def call_description_def py_in_sublist Let_def)

lemma classify_sender:
  assumes "\<not> sublist ''calldata'' (str_var (call_to call))"
    and "sublist ''caller'' (str_var (call_to call))"
  shows "issue_type (call_issue ss call) = ''Warning''"
    and "description (call_issue ss call) =
           ''This contract executes a message call to ''
           @ ''the address of the transaction sender. '' @ user_supplied_advice"
  using assms by (simp_all add: call_issue_def call_description_def py_in_sublist Let_def)

lemma classify_storage:
  assumes "\<not> sublist ''calldata'' (str_var (call_to call))"
    and "\<not> sublist ''caller'' (str_var (call_to call))"
    and "re_search_storage (str_var (call_to call)) = Some idx"
    and "find_storage_write ss (active_account_address (call_state call)) idx = Some func"
    and "func \<noteq> []"
  shows "issue_type (call_issue ss call) = ''Warning''"
    and "description (call_issue ss call) =
           ''This contract executes a message call to ''
           @ ''an address found at storage slot '' @ idx @ ''. ''
           @ ''This storage slot can be written to by calling the function `'' @ func @ ''`. ''
           @ user_supplied_advice"
  using assms by (simp_all add: call_issue_def call_description_def py_in_sublist Let_def)

lemma classify_trusted:
  assumes "\<not> sublist ''calldata'' (str_var (call_to call))"
    and "\<not> sublist ''caller'' (str_var (call_to call))"
    and "\<not> (\<exists>idx func. re_search_storage (str_var (call_to call)) = Some idx
              \<and> find_storage_write ss (active_account_address (call_state call)) idx = Some func
              \<and> func \<noteq> [])"
  shows "issue_type (call_issue ss call) = ''Informational''"
    and "description (call_issue ss call) =
           ''This contract executes a message call to '' @ trusted_advice"
  using assms
  by (auto simp add: call_issue_def call_description_def py_in_sublist Let_def split: option.splits)

text \<open>
  Claim C6. A flagged call yields exactly one issue titled
  \<^verbatim>\<open>Message call to external contract\<close>; the issues that follow it in the same step are
  those of the state changes. The first matching rule decides: a destination text with
  \<^verbatim>\<open>calldata\<close> gives a warning about an address provided as a function argument, also
  when the text contains \<^verbatim>\<open>caller\<close>; otherwise a text with \<^verbatim>\<open>caller\<close> gives a warning
  about the address of the transaction sender; otherwise a storage slot with a writing
  function gives a warning; otherwise the issue is informational.
\<close>

theorem classification_first_match:
  assumes "call_type call = ''CALL''" and "call_filter call"
    and "call_step ss call self issues = (self', lg, Inr issues')"
  shows "(\<exists>addrs. issues' = issues @ call_issue ss call # map (state_change_issue call) addrs)
     \<and> length (filter (\<lambda>i. title i = ''Message call to external contract'')
                 (drop (length issues) issues')) = 1
     \<and> (sublist ''calldata'' (str_var (call_to call)) \<longrightarrow>
          issue_type (call_issue ss call) = ''Warning''
          \<and> description (call_issue ss call) =
               ''This contract executes a message call to ''
               @ ''an address provided as a function argument. '' @ user_supplied_advice)
     \<and> (\<not> sublist ''calldata'' (str_var (call_to call))
          \<and> sublist ''caller'' (str_var (call_to call)) \<longrightarrow>
          issue_type (call_issue ss call) = ''Warning''
          \<and> description (call_issue ss call) =
               ''This contract executes a message call to ''
               @ ''the address of the transaction sender. '' @ user_supplied_advice)
     \<and> (\<not> sublist ''calldata'' (str_var (call_to call))
          \<and> \<not> sublist ''caller'' (str_var (call_to call))
          \<and> (\<exists>idx func. re_search_storage (str_var (call_to call)) = Some idx
                \<and> find_storage_write ss (active_account_address (call_state call)) idx = Some func
                \<and> func \<noteq> []) \<longrightarrow>
          issue_type (call_issue ss call) = ''Warning'')
     \<and> (\<not> sublist ''calldata'' (str_var (call_to call))
          \<and> \<not> sublist ''caller'' (str_var (call_to call))
          \<and> \<not> (\<exists>idx func. re_search_storage (str_var (call_to call)) = Some idx
                \<and> find_storage_write ss (active_account_address (call_state call)) idx = Some func
                \<and> func \<noteq> []) \<longrightarrow>
          issue_type (call_issue ss call) = ''Informational''
          \<and> description (call_issue ss call) =
               ''This contract executes a message call to '' @ trusted_advice)"
proof -
  from call_step_issues [OF assms] obtain addrs where
    i: "issues' = issues @ call_issue ss call # map (state_change_issue call) addrs"
    by blast
  then have one: "length (filter (\<lambda>i. title i = ''Message call to external contract'')
                    (drop (length issues) issues')) = 1"
    by (simp add: call_issue_title no_call_title_in_state_changes)
  from i one classify_argument [of call ss] classify_sender [of call ss]
    classify_storage(1) [of call _ ss] classify_trusted [of call ss]
  show ?thesis
    by blast
qed

lemma call_ex_step:
  "call_step chain_statespace call_ex detector [] =
     (detector\<lparr>calls_visited := [0x10]\<rparr>,
      [call_log call_ex, CheckingStateChanges ''withdraw()'',
       SearchingNode 0, SearchingNode 1, SearchingNode 2,
       DetectedStateChanges [0x42, 0x42, 0x42, 0x42]],
      Inr [call_issue chain_statespace call_ex,
           state_change_issue call_ex 0x42, state_change_issue call_ex 0x42,
           state_change_issue call_ex 0x42, state_change_issue call_ex 0x42])"
proof -
  have d: "instruction_address (call_state call_ex) \<notin> set (calls_visited detector)"
    "max_search_depth detector = 64" "calls_visited detector = []"
    by (simp_all add: detector_def)
  show ?thesis
    using chain_search
    by (simp add: call_step_search [OF call_ex_flagged d(1)] d(2,3) call_ex_fields)
qed

theorem classification_first_match_witness:
  "call_type call_ex = ''CALL''
   \<and> call_filter call_ex
   \<and> call_step chain_statespace call_ex detector [] =
       (detector\<lparr>calls_visited := [0x10]\<rparr>,
        [call_log call_ex, CheckingStateChanges ''withdraw()'',
         SearchingNode 0, SearchingNode 1, SearchingNode 2,
         DetectedStateChanges [0x42, 0x42, 0x42, 0x42]],
        Inr [call_issue chain_statespace call_ex,
             state_change_issue call_ex 0x42, state_change_issue call_ex 0x42,
             state_change_issue call_ex 0x42, state_change_issue call_ex 0x42])
   \<and> sublist ''calldata'' (str_var (call_to call_ex))
   \<and> length (filter (\<lambda>i. title i = ''Message call to external contract'')
               (drop (length ([] :: Issue list))
                  [call_issue chain_statespace call_ex,
                   state_change_issue call_ex 0x42, state_change_issue call_ex 0x42,
                   state_change_issue call_ex 0x42, state_change_issue call_ex 0x42])) = 1
   \<and> issue_type (call_issue chain_statespace call_ex) = ''Warning''
   \<and> description (call_issue chain_statespace call_ex) =
        ''This contract executes a message call to ''
        @ ''an address provided as a function argument. '' @ user_supplied_advice"
proof -
  have t: "sublist ''calldata'' (str_var (call_to call_ex))"
    by (simp add: py_in_sublist [symmetric] call_ex_def)
  from classification_first_match [OF call_ex_flagged call_ex_step] t
    call_ex_flagged call_ex_step
  show ?thesis
    by blast
qed

text \<open>
  Claim C7. For a flagged call whose destination text has neither \<^verbatim>\<open>calldata\<close> nor
  \<^verbatim>\<open>caller\<close> and in which the storage pattern finds the key \<^verbatim>\<open>3\<close>: when the lookup, asked
  with the address of the active account and the key, names the function \<^verbatim>\<open>setOwner\<close>,
  the issue of the call is a warning whose description contains \<^verbatim>\<open>3\<close> and \<^verbatim>\<open>setOwner\<close>;
  when the lookup names no function, the issue is informational with the description of a
  trusted destination. In both cases it is the issue the step appends.
\<close>

theorem storage_slot_classification:
  assumes "call_type call = ''CALL''" and "call_filter call"
    and "\<not> sublist ''calldata'' (str_var (call_to call))"
    and "\<not> sublist ''caller'' (str_var (call_to call))"
    and "re_search_storage (str_var (call_to call)) = Some ''3''"
  shows "(find_storage_write ss (active_account_address (call_state call)) ''3'' = Some ''setOwner''
            \<longrightarrow> issue_type (call_issue ss call) = ''Warning''
                \<and> sublist ''3'' (description (call_issue ss call))
                \<and> sublist ''setOwner'' (description (call_issue ss call))
                \<and> description (call_issue ss call) =
                     ''This contract executes a message call to ''
                     @ ''an address found at storage slot 3. ''
                     @ ''This storage slot can be written to by calling the function `setOwner`. ''
                     @ user_supplied_advice)
     \<and> (find_storage_write ss (active_account_address (call_state call)) ''3'' = None
            \<longrightarrow> issue_type (call_issue ss call) = ''Informational''
                \<and> description (call_issue ss call) =
                     ''This contract executes a message call to '' @ trusted_advice)
     \<and> (\<forall>self issues self' lg issues'.
            call_step ss call self issues = (self', lg, Inr issues')
            \<longrightarrow> (\<exists>addrs. issues' = issues @ call_issue ss call
                                      # map (state_change_issue call) addrs))"
proof -
  have w: "issue_type (call_issue ss call) = ''Warning''
           \<and> sublist ''3'' (description (call_issue ss call))
           \<and> sublist ''setOwner'' (description (call_issue ss call))
           \<and> description (call_issue ss call) =
                ''This contract executes a message call to ''
                @ ''an address found at storage slot 3. ''
                @ ''This storage slot can be written to by calling the function `setOwner`. ''
                @ user_supplied_advice"
    if f: "find_storage_write ss (active_account_address (call_state call)) ''3'' = Some ''setOwner''"
  proof -
    have ne: "''setOwner'' \<noteq> []" by simp
    note d = classify_storage(2) [OF assms(3-5) f ne]
    have "description (call_issue ss call) =
            (''This contract executes a message call to ''
             @ ''an address found at storage slot '') @ ''3''
            @ (''. '' @ ''This storage slot can be written to by calling the function `''
               @ ''setOwner'' @ ''`. '' @ user_supplied_advice)"
      unfolding d by (simp only: append_assoc)
    then have "sublist ''3'' (description (call_issue ss call))"
      by (simp only: sublist_appendI)
    moreover have "description (call_issue ss call) =
            (''This contract executes a message call to ''
             @ ''an address found at storage slot '' @ ''3'' @ ''. ''
             @ ''This storage slot can be written to by calling the function `'')
            @ ''setOwner'' @ (''`. '' @ user_supplied_advice)"
      unfolding d by (simp only: append_assoc)
    then have "sublist ''setOwner'' (description (call_issue ss call))"
      by (simp only: sublist_appendI)
    ultimately show ?thesis
      using classify_storage(1) [OF assms(3-5) f ne] d by simp
  qed
  have n: "issue_type (call_issue ss call) = ''Informational''
           \<and> description (call_issue ss call) =
                ''This contract executes a message call to '' @ trusted_advice"
    if "find_storage_write ss (active_account_address (call_state call)) ''3'' = None"
    using classify_trusted [OF assms(3,4), of ss] that assms(5) by simp
  from w n call_step_issues [OF assms(1,2)] show ?thesis
    by blast
qed

lemma call_slot_facts:
  "call_type call_slot = ''CALL''"
  "call_filter call_slot"
  "\<not> sublist ''calldata'' (str_var (call_to call_slot))"
  "\<not> sublist ''caller'' (str_var (call_to call_slot))"
  "re_search_storage (str_var (call_to call_slot)) = Some ''3''"
  by (simp_all add: call_slot_def call_ex_def call_filter_def py_in_sublist [symmetric]
        slot_char_def)

theorem storage_slot_classification_witness:
  "call_type call_slot = ''CALL''
   \<and> call_filter call_slot
   \<and> \<not> sublist ''calldata'' (str_var (call_to call_slot))
   \<and> \<not> sublist ''caller'' (str_var (call_to call_slot))
   \<and> re_search_storage (str_var (call_to call_slot)) = Some ''3''
   \<and> find_storage_write owner_statespace (active_account_address (call_state call_slot)) ''3''
       = Some ''setOwner''
   \<and> issue_type (call_issue owner_statespace call_slot) = ''Warning''
   \<and> sublist ''3'' (description (call_issue owner_statespace call_slot))
   \<and> sublist ''setOwner'' (description (call_issue owner_statespace call_slot))
   \<and> find_storage_write chain_statespace (active_account_address (call_state call_slot)) ''3''
       = None
   \<and> issue_type (call_issue chain_statespace call_slot) = ''Informational''
   \<and> description (call_issue chain_statespace call_slot) =
        ''This contract executes a message call to '' @ trusted_advice"
proof -
  have o: "find_storage_write owner_statespace (active_account_address (call_state call_slot)) ''3''
             = Some ''setOwner''"
    by (simp add: owner_statespace_def chain_statespace_def)
  have c: "find_storage_write chain_statespace (active_account_address (call_state call_slot)) ''3''
             = None"
    by (simp add: chain_statespace_def)
  from storage_slot_classification [OF call_slot_facts, of owner_statespace]
    storage_slot_classification [OF call_slot_facts, of chain_statespace]
    call_slot_facts o c
  show ?thesis
    by blast
qed

subsection \<open>Deduplication of the search\<close>

lemma search_log_no_checking:
  "filter is_checking (fst (search_children ss msd node tid si depth results)) = []"
proof -
  obtain lg res where s: "search_children ss msd node tid si depth results = (lg, res)"
    by (cases "search_children ss msd node tid si depth results")
  from search_log_reach(1) [OF s] obtain rest where
    "lg = SearchingNode (uid node) # rest"
    "\<forall>x\<in>set rest. \<exists>c. x = SearchingNode (uid c) \<and> (intra_step ss)\<^sup>+\<^sup>+ node c"
    by blast
  then have "\<forall>x\<in>set lg. \<not> is_checking x"
    by auto
  with s show ?thesis
    by (simp add: filter_empty_conv)
qed

lemma call_log_not_checking: "\<not> is_checking (call_log call)"
  by (simp add: call_log_def)

text \<open>
  One step appends at most one address to \<^verbatim>\<open>calls_visited\<close>, a new one, and logs one
  record \<^verbatim>\<open>Checking for state changes\<close> exactly when it does.
\<close>

lemma call_step_visited_grows:
  assumes "call_step ss call self issues = (self', lg, r)"
  shows "\<exists>new. calls_visited self' = calls_visited self @ new \<and> distinct new
           \<and> set new \<inter> set (calls_visited self) = {}
           \<and> length (filter is_checking lg) = length new"
proof (cases "call_type call = ''CALL''")
  case False
  with assms show ?thesis by (simp add: call_step_not_call)
next
  case c: True
  show ?thesis
  proof (cases "call_filter call")
    case False
    with c assms show ?thesis by (auto simp add: call_step_filtered call_log_not_checking)
  next
    case f: True
    show ?thesis
    proof (cases "instruction_address (call_state call) \<in> set (calls_visited self)")
      case True
      with c f assms show ?thesis by (auto simp add: call_step_visited call_log_not_checking)
    next
      case False
      let ?a = "instruction_address (call_state call)"
      obtain slg sres where s: "search_children ss (max_search_depth self) (call_node call)
          (current_transaction_id (call_state call)) (state_index call + 1) 0 [] = (slg, sres)"
        by (cases "search_children ss (max_search_depth self) (call_node call)
          (current_transaction_id (call_state call)) (state_index call + 1) 0 []")
      from search_log_no_checking [of ss "max_search_depth self" "call_node call"
          "current_transaction_id (call_state call)" "state_index call + 1" 0 "[]"] s
      have n: "filter is_checking slg = []" by simp
      from assms s have "calls_visited self' = calls_visited self @ [?a]"
        "length (filter is_checking lg) = 1"
        by (auto simp add: call_step_search [OF c f False] n call_log_not_checking
              split: sum.splits)
      with False show ?thesis by simp
    qed
  qed
qed

lemma execute_loop_visited_grows:
  "execute_loop ss cs self issues = (self', lg, r) \<Longrightarrow>
     \<exists>new. calls_visited self' = calls_visited self @ new \<and> distinct new
       \<and> set new \<inter> set (calls_visited self) = {}
       \<and> length (filter is_checking lg) = length new"
proof (induction cs arbitrary: self issues self' lg r)
  case Nil
  then show ?case by simp
next
  case (Cons c cs)
  obtain s1 lg1 r1 where st: "call_step ss c self issues = (s1, lg1, r1)"
    by (cases "call_step ss c self issues")
  from call_step_visited_grows [OF st] obtain new1 where
    n1: "calls_visited s1 = calls_visited self @ new1" "distinct new1"
      "set new1 \<inter> set (calls_visited self) = {}" "length (filter is_checking lg1) = length new1"
    by blast
  show ?case
  proof (cases r1)
    case (Inl e)
    with st Cons.prems n1 show ?thesis by auto
  next
    case (Inr i1)
    obtain s2 lg2 r2 where lp: "execute_loop ss cs s1 i1 = (s2, lg2, r2)"
      by (cases "execute_loop ss cs s1 i1")
    from Cons.IH [OF lp] obtain new2 where
      n2: "calls_visited s2 = calls_visited s1 @ new2" "distinct new2"
        "set new2 \<inter> set (calls_visited s1) = {}" "length (filter is_checking lg2) = length new2"
      by blast
    from st Inr lp Cons.prems have e: "self' = s2" "lg = lg1 @ lg2" by simp_all
    have "calls_visited self' = calls_visited self @ (new1 @ new2)"
      using e n1 n2 by simp
    moreover have "distinct (new1 @ new2)"
      using n1 n2 by auto
    moreover have "set (new1 @ new2) \<inter> set (calls_visited self) = {}"
      using n1 n2 by auto
    moreover have "length (filter is_checking lg) = length (new1 @ new2)"
      using e n1 n2 by simp
    ultimately show ?thesis by blast
  qed
qed

lemma call_step_flagged_visited:
  assumes "call_type call = ''CALL''" and "call_filter call"
    and "call_step ss call self issues = (self', lg, r)"
  shows "instruction_address (call_state call) \<in> set (calls_visited self')"
proof (cases "instruction_address (call_state call) \<in> set (calls_visited self)")
  case True
  with assms show ?thesis by (simp add: call_step_visited)
next
  case False
  with assms show ?thesis
    by (auto simp add: call_step_search split: prod.splits sum.splits)
qed

lemma execute_loop_flagged_visited:
  "execute_loop ss cs self issues = (self', lg, Inr issues') \<Longrightarrow>
   c \<in> set cs \<Longrightarrow> call_type c = ''CALL'' \<Longrightarrow> call_filter c \<Longrightarrow>
     instruction_address (call_state c) \<in> set (calls_visited self')"
proof (induction cs arbitrary: self issues lg)
  case Nil
  then show ?case by simp
next
  case (Cons x cs)
  obtain s1 lg1 r1 where st: "call_step ss x self issues = (s1, lg1, r1)"
    by (cases "call_step ss x self issues")
  with Cons.prems(1) obtain i1 where r1: "r1 = Inr i1"
    by (cases r1) auto
  obtain s2 lg2 r2 where lp: "execute_loop ss cs s1 i1 = (s2, lg2, r2)"
    by (cases "execute_loop ss cs s1 i1")
  with st r1 Cons.prems(1) have e: "s2 = self'" "r2 = Inr issues'" by simp_all
  show ?case
  proof (cases "c = x")
    case True
    with Cons.prems st have "instruction_address (call_state c) \<in> set (calls_visited s1)"
      by (auto intro: call_step_flagged_visited)
    moreover from execute_loop_visited_grows [OF lp] e
    have "set (calls_visited s1) \<subseteq> set (calls_visited self')" by auto
    ultimately show ?thesis by blast
  next
    case False
    with Cons.prems have "c \<in> set cs" by simp
    from Cons.IH [OF lp [unfolded e] this Cons.prems(3,4)] show ?thesis .
  qed
qed

lemma execute_loop_append:
  "execute_loop ss (xs @ ys) self issues =
     (case execute_loop ss xs self issues of
        (s1, lg1, Inl e) \<Rightarrow> (s1, lg1, Inl e)
      | (s1, lg1, Inr i1) \<Rightarrow>
          (case execute_loop ss ys s1 i1 of (s2, lg2, r) \<Rightarrow> (s2, lg1 @ lg2, r)))"
  by (induction xs arbitrary: self issues) (auto split: prod.splits sum.splits)

text \<open>
  Claim C5. Within one run, when a flagged call at some program address has been
  processed, a later flagged call at the same address still gets its own issue, and that
  is all: the step logs the record of the call only, so the search is not invoked, and it
  leaves \<^verbatim>\<open>calls_visited\<close> as it is. Over the run the addresses appended to
  \<^verbatim>\<open>calls_visited\<close> are pairwise different and new, and there are as many of them as
  invocations of the search from \<^verbatim>\<open>execute\<close>: at most one search for an address.
\<close>

theorem search_once_per_address:
  assumes "execute_loop ss pre self issues = (self1, lg1, Inr issues1)"
    and "c1 \<in> set pre" and "call_type c1 = ''CALL''" and "call_filter c1"
    and "call_type c2 = ''CALL''" and "call_filter c2"
    and "instruction_address (call_state c2) = instruction_address (call_state c1)"
  shows "call_step ss c2 self1 issues1
           = (self1, [call_log c2], Inr (issues1 @ [call_issue ss c2]))
     \<and> execute_loop ss (pre @ [c2]) self issues
           = (self1, lg1 @ [call_log c2], Inr (issues1 @ [call_issue ss c2]))
     \<and> (\<exists>new. calls_visited self1 = calls_visited self @ new \<and> distinct new
           \<and> set new \<inter> set (calls_visited self) = {}
           \<and> length (filter is_checking lg1) = length new)"
proof -
  from execute_loop_flagged_visited [OF assms(1-4)] assms(7)
  have "instruction_address (call_state c2) \<in> set (calls_visited self1)" by simp
  from call_step_visited [OF assms(5,6) this]
  have st: "call_step ss c2 self1 issues1
              = (self1, [call_log c2], Inr (issues1 @ [call_issue ss c2]))" .
  then have "execute_loop ss (pre @ [c2]) self issues
               = (self1, lg1 @ [call_log c2], Inr (issues1 @ [call_issue ss c2]))"
    by (simp add: execute_loop_append assms(1))
  with st execute_loop_visited_grows [OF assms(1)] show ?thesis
    by blast
qed

lemma twice_first_call:
  "execute_loop twice_statespace [call_ex] detector [] =
     (detector\<lparr>calls_visited := [0x10]\<rparr>,
      [call_log call_ex, CheckingStateChanges ''withdraw()'',
       SearchingNode 0, SearchingNode 1, SearchingNode 2,
       DetectedStateChanges [0x42, 0x42, 0x42, 0x42]],
      Inr [call_issue twice_statespace call_ex,
           state_change_issue call_ex 0x42, state_change_issue call_ex 0x42,
           state_change_issue call_ex 0x42, state_change_issue call_ex 0x42])"
proof -
  have d: "instruction_address (call_state call_ex) \<notin> set (calls_visited detector)"
    "max_search_depth detector = 64" "calls_visited detector = []"
    by (simp_all add: detector_def)
  show ?thesis
    using twice_search
    by (simp add: call_step_search [OF call_ex_flagged d(1)] d(2,3) call_ex_fields)
qed

theorem search_once_per_address_witness:
  "execute_loop twice_statespace [call_ex] detector [] =
     (detector\<lparr>calls_visited := [0x10]\<rparr>,
      [call_log call_ex, CheckingStateChanges ''withdraw()'',
       SearchingNode 0, SearchingNode 1, SearchingNode 2,
       DetectedStateChanges [0x42, 0x42, 0x42, 0x42]],
      Inr [call_issue twice_statespace call_ex,
           state_change_issue call_ex 0x42, state_change_issue call_ex 0x42,
           state_change_issue call_ex 0x42, state_change_issue call_ex 0x42])
   \<and> call_ex \<in> set [call_ex]
   \<and> call_type call_ex = ''CALL''
   \<and> call_filter call_ex
   \<and> instruction_address (call_state call_ex) = instruction_address (call_state call_ex)
   \<and> calls twice_statespace = [call_ex] @ [call_ex]
   \<and> execute_loop twice_statespace ([call_ex] @ [call_ex]) detector [] =
       (detector\<lparr>calls_visited := [0x10]\<rparr>,
        [call_log call_ex, CheckingStateChanges ''withdraw()'',
         SearchingNode 0, SearchingNode 1, SearchingNode 2,
         DetectedStateChanges [0x42, 0x42, 0x42, 0x42]] @ [call_log call_ex],
        Inr ([call_issue twice_statespace call_ex,
              state_change_issue call_ex 0x42, state_change_issue call_ex 0x42,
              state_change_issue call_ex 0x42, state_change_issue call_ex 0x42]
             @ [call_issue twice_statespace call_ex]))"
proof -
  have m: "call_ex \<in> set [call_ex]" by simp
  have c: "calls twice_statespace = [call_ex] @ [call_ex]"
    by (simp add: twice_statespace_def)
  from search_once_per_address [OF twice_first_call m call_ex_flagged call_ex_flagged refl]
    twice_first_call m call_ex_flagged c
  show ?thesis
    by blast
qed


subsection \<open>A second run of the same detector\<close>

text \<open>
  Once every flagged call of a list has its address in \<^verbatim>\<open>calls_visited\<close>, a pass over the
  list starts no search: it leaves the detector as it is and appends the issue of each
  flagged call, no issue of a state change.
\<close>

lemma execute_loop_all_visited:
  "(\<And>c. c \<in> set cs \<Longrightarrow> call_type c = ''CALL'' \<Longrightarrow> call_filter c \<Longrightarrow>
         instruction_address (call_state c) \<in> set (calls_visited self)) \<Longrightarrow>
   execute_loop ss cs self issues =
     (self, map call_log (filter (\<lambda>c. call_type c = ''CALL'') cs),
      Inr (issues @ map (call_issue ss)
                      (filter (\<lambda>c. call_type c = ''CALL'' \<and> call_filter c) cs)))"
proof (induction cs arbitrary: issues)
  case Nil
  show ?case by simp
next
  case (Cons c cs)
  have ih: "execute_loop ss cs self is =
     (self, map call_log (filter (\<lambda>c. call_type c = ''CALL'') cs),
      Inr (is @ map (call_issue ss)
                  (filter (\<lambda>c. call_type c = ''CALL'' \<and> call_filter c) cs)))" for "is"
    using Cons.prems by (intro Cons.IH) simp_all
  show ?case
  proof (cases "call_type c = ''CALL''")
    case False
    then show ?thesis by (simp add: call_step_not_call ih)
  next
    case c: True
    show ?thesis
    proof (cases "call_filter c")
      case False
      with c show ?thesis by (simp add: call_step_filtered ih)
    next
      case True
      with c Cons.prems have "instruction_address (call_state c) \<in> set (calls_visited self)"
        by simp
      with c True show ?thesis by (simp add: call_step_visited ih)
    qed
  qed
qed

text \<open>The issues titled for the call among those a pass returns.\<close>

lemma execute_loop_call_issues:
  "execute_loop ss cs self issues = (self', lg, Inr issues') \<Longrightarrow>
     filter (\<lambda>i. title i = ''Message call to external contract'') issues' =
       filter (\<lambda>i. title i = ''Message call to external contract'') issues
       @ map (call_issue ss) (filter (\<lambda>c. call_type c = ''CALL'' \<and> call_filter c) cs)"
proof (induction cs arbitrary: self issues lg)
  case Nil
  then show ?case by simp
next
  case (Cons c cs)
  obtain s1 lg1 r1 where st: "call_step ss c self issues = (s1, lg1, r1)"
    by (cases "call_step ss c self issues")
  with Cons.prems obtain i1 where r1: "r1 = Inr i1"
    by (cases r1) auto
  obtain s2 lg2 r2 where lp: "execute_loop ss cs s1 i1 = (s2, lg2, r2)"
    by (cases "execute_loop ss cs s1 i1")
  with st r1 Cons.prems have e: "s2 = self'" "r2 = Inr issues'" by simp_all
  note ih = Cons.IH [OF lp [unfolded e]]
  show ?case
  proof (cases "call_type c = ''CALL'' \<and> call_filter c")
    case True
    with call_step_issues [OF _ _ st [unfolded r1]] obtain addrs where
      "i1 = issues @ call_issue ss c # map (state_change_issue c) addrs"
      by blast
    with ih True show ?thesis
      by (simp add: call_issue_title no_call_title_in_state_changes)
  next
    case False
    with st r1 have "i1 = issues"
      by (cases "call_type c = ''CALL''") (auto simp add: call_step_not_call call_step_filtered)
    with ih False show ?thesis by auto
  qed
qed

text \<open>
  Claim C4, as stated, fails. On the chain the first run of the detector returns five
  issues and leaves the call's address in \<^verbatim>\<open>calls_visited\<close>; the second run of the same
  detector on the same statespace skips the search and returns the issue of the call
  alone.
\<close>

theorem second_run_differs:
  "execute detector chain_statespace =
     (detector\<lparr>calls_visited := [0x10]\<rparr>,
      [call_log call_ex, CheckingStateChanges ''withdraw()'',
       SearchingNode 0, SearchingNode 1, SearchingNode 2,
       DetectedStateChanges [0x42, 0x42, 0x42, 0x42]],
      Inr [call_issue chain_statespace call_ex,
           state_change_issue call_ex 0x42, state_change_issue call_ex 0x42,
           state_change_issue call_ex 0x42, state_change_issue call_ex 0x42])
   \<and> execute (fst (execute detector chain_statespace)) chain_statespace =
     (detector\<lparr>calls_visited := [0x10]\<rparr>, [call_log call_ex],
      Inr [call_issue chain_statespace call_ex])
   \<and> snd (snd (execute (fst (execute detector chain_statespace)) chain_statespace))
       \<noteq> snd (snd (execute detector chain_statespace))"
  by (simp add: chain_execute chain_execute_again)

text \<open>
  Claim C4, amended. The list of issues is local to a run: every run starts from the
  empty list. The list \<^verbatim>\<open>calls_visited\<close> belongs to the detector, is set in \<^verbatim>\<open>__init__\<close>
  and is never cleared. After a run that returned, a second run of the same detector on
  the same statespace starts no search and leaves the detector as it is; it returns the
  issues of the first run that are titled for the call, in the same order, and none of
  the issues of a state change.
\<close>

theorem second_run_call_issues_only:
  assumes "execute self ss = (self1, lg1, Inr issues1)"
  shows "execute self1 ss =
     (self1, map call_log (filter (\<lambda>c. call_type c = ''CALL'') (calls ss)),
      Inr (filter (\<lambda>i. title i = ''Message call to external contract'') issues1))
   \<and> filter (\<lambda>i. title i = ''Message call to external contract'') issues1
       = map (call_issue ss) (filter (\<lambda>c. call_type c = ''CALL'' \<and> call_filter c) (calls ss))"
proof -
  from assms have run: "execute_loop ss (calls ss) self [] = (self1, lg1, Inr issues1)"
    by (simp add: execute_def)
  have "execute_loop ss (calls ss) self1 [] =
     (self1, map call_log (filter (\<lambda>c. call_type c = ''CALL'') (calls ss)),
      Inr ([] @ map (call_issue ss)
             (filter (\<lambda>c. call_type c = ''CALL'' \<and> call_filter c) (calls ss))))"
    by (rule execute_loop_all_visited) (rule execute_loop_flagged_visited [OF run])
  with execute_loop_call_issues [OF run] show ?thesis
    by (simp add: execute_def)
qed

theorem second_run_call_issues_only_witness:
  "execute detector chain_statespace =
     (detector\<lparr>calls_visited := [0x10]\<rparr>,
      [call_log call_ex, CheckingStateChanges ''withdraw()'',
       SearchingNode 0, SearchingNode 1, SearchingNode 2,
       DetectedStateChanges [0x42, 0x42, 0x42, 0x42]],
      Inr [call_issue chain_statespace call_ex,
           state_change_issue call_ex 0x42, state_change_issue call_ex 0x42,
           state_change_issue call_ex 0x42, state_change_issue call_ex 0x42])
   \<and> execute (detector\<lparr>calls_visited := [0x10]\<rparr>) chain_statespace =
     (detector\<lparr>calls_visited := [0x10]\<rparr>,
      map call_log (filter (\<lambda>c. call_type c = ''CALL'') (calls chain_statespace)),
      Inr (filter (\<lambda>i. title i = ''Message call to external contract'')
             [call_issue chain_statespace call_ex,
              state_change_issue call_ex 0x42, state_change_issue call_ex 0x42,
              state_change_issue call_ex 0x42, state_change_issue call_ex 0x42]))"
  using second_run_call_issues_only [OF chain_execute] chain_execute
  by (intro conjI) simp_all


end
